theory Spec2Isabelle
  imports Main
begin

section \<open>The response cache of cache.c\<close>

text \<open>
  The cache is a singly linked list of web objects behind the global pointer
  \<open>web_cache\<close>. The list is modelled as a HOL list in link order (head first), a node
  pointer as the position of the node in that list, and the global as a record that each
  operation takes and returns. The model is sequential: one call runs to its end before
  the next starts.

  C's \<open>int\<close> is modelled as \<open>int\<close>; an addition or subtraction whose result leaves the
  32-bit range is undefined in C and is a fault of the model. Byte buffers and
  NUL-terminated strings are \<open>string\<close>s without the terminator, so \<open>strlen\<close> is
  \<open>length\<close>; keys and request lines are taken to hold no NUL byte.
\<close>

definition MAX_CACHE_SIZE :: int where
  "MAX_CACHE_SIZE = 1024 * 1024"

definition MAX_OBJECT_SIZE :: int where
  "MAX_OBJECT_SIZE = 100 * 1024"

definition INT_MAX :: int where
  "INT_MAX = 2147483647"

definition INT_MIN :: int where
  "INT_MIN = - 2147483648"

text \<open>What a call can do instead of returning.\<close>

datatype fault =
    SignedOverflow  \<comment> \<open>an \<open>int\<close> computation leaves the 32-bit range\<close>
  | UninitRead      \<comment> \<open>\<open>toEvict\<close> is read although the scan never assigned it\<close>
  | NullDeref       \<comment> \<open>\<open>memcpy\<close> or \<open>strcpy\<close> into the NULL a failed \<open>malloc\<close> returned\<close>
  | OutOfBounds     \<comment> \<open>\<open>memcpy\<close> reads past the end of the source buffer\<close>
  | SpinForever     \<comment> \<open>the wait for \<open>referenceCnt\<close> to reach zero never ends\<close>
  | BufferOverflow  \<comment> \<open>\<open>sprintf\<close> or \<open>strncat\<close> writes past the end of its array\<close>

definition c_add :: "int \<Rightarrow> int \<Rightarrow> fault + int" where
  "c_add a b = (if INT_MIN \<le> a + b \<and> a + b \<le> INT_MAX then Inr (a + b) else Inl SignedOverflow)"

definition c_sub :: "int \<Rightarrow> int \<Rightarrow> fault + int" where
  "c_sub a b = (if INT_MIN \<le> a - b \<and> a - b \<le> INT_MAX then Inr (a - b) else Inl SignedOverflow)"

record web_object_t =
  urlKey :: string
  object :: string
  objSize :: int
  tStamp :: int
  referenceCnt :: int

text \<open>The field \<open>size\<close> of the C struct is \<open>size_c\<close> here.\<close>

record web_cache_t =
  start :: "web_object_t list"
  size_c :: int
  LRU :: int

text \<open>\<open>init_web_cache\<close>, when its allocation succeeds.\<close>

definition init_web_cache :: web_cache_t where
  "init_web_cache = \<lparr>start = [], size_c = 0, LRU = 0\<rparr>"

text \<open>
  \<open>get_obj_with_key\<close> walks the list and returns the first node whose key has the length
  of \<open>key\<close> and agrees with it on that many characters.
\<close>

fun get_obj_with_key :: "string \<Rightarrow> web_object_t list \<Rightarrow> nat option" where
  "get_obj_with_key key [] = None"
| "get_obj_with_key key (currObj # rest) =
     (if length key = length (urlKey currObj) \<and>
         take (length key) (urlKey currObj) = take (length key) key
      then Some 0
      else map_option Suc (get_obj_with_key key rest))"

text \<open>
  The inner loop of \<open>cache_eviction\<close>: \<open>i\<close> is the position of \<open>currObj\<close>,
  \<open>minStamp\<close> the smallest stamp so far and \<open>toEvict\<close> the position recorded with it
  (\<open>None\<close> while the array is unassigned). The predecessor \<open>toEvict[1]\<close> is the node
  before that position.
\<close>

fun scan_min :: "web_object_t list \<Rightarrow> nat \<Rightarrow> int \<Rightarrow> nat option \<Rightarrow> nat option" where
  "scan_min [] i minStamp toEvict = toEvict"
| "scan_min (currObj # rest) i minStamp toEvict =
     (if tStamp currObj < minStamp
      then scan_min rest (Suc i) (tStamp currObj) (Some i)
      else scan_min rest (Suc i) minStamp toEvict)"

text \<open>
  One pass of the outer loop of \<open>cache_eviction\<close>: scan, unlink the victim, lower the
  size, drop the list's reference and wait for the count to reach zero before freeing.
  No other thread runs in this model, so a count that is not zero after the decrement
  stays so.
\<close>

definition evict_one :: "web_cache_t \<Rightarrow> fault + web_cache_t" where
  "evict_one c =
     (case scan_min (start c) 0 INT_MAX None of
        None \<Rightarrow> Inl UninitRead
      | Some i \<Rightarrow>
          (case c_sub (size_c c) (objSize (start c ! i)) of
             Inl f \<Rightarrow> Inl f
           | Inr sz \<Rightarrow>
               (case c_sub (referenceCnt (start c ! i)) 1 of
                  Inl f \<Rightarrow> Inl f
                | Inr r \<Rightarrow>
                    if r = 0
                    then Inr (c\<lparr>start := take i (start c) @ drop (Suc i) (start c), size_c := sz\<rparr>)
                    else Inl SpinForever)))"

lemma scan_min_bound:
  "scan_min xs i m v = Some j \<Longrightarrow> (\<And>k. v = Some k \<Longrightarrow> k < i) \<Longrightarrow> j < i + length xs"
proof (induction xs arbitrary: i m v)
  case Nil
  then show ?case by simp
next
  case (Cons x xs)
  show ?case
  proof (cases "tStamp x < m")
    case True
    with Cons.prems(1) have "scan_min xs (Suc i) (tStamp x) (Some i) = Some j" by simp
    from Cons.IH [OF this] show ?thesis by simp
  next
    case False
    with Cons.prems(1) have "scan_min xs (Suc i) m v = Some j" by simp
    from Cons.IH [OF this] Cons.prems(2) show ?thesis by (simp add: less_Suc_eq)
  qed
qed

lemma scan_min_in_range: "scan_min xs 0 m None = Some j \<Longrightarrow> j < length xs"
  using scan_min_bound [of xs 0 m None j] by simp

lemma evict_one_shorter:
  "evict_one c = Inr c' \<Longrightarrow> length (start c') < length (start c)"
  by (auto simp: evict_one_def split: option.splits sum.splits if_splits
      dest!: scan_min_in_range)

function cache_eviction :: "int \<Rightarrow> web_cache_t \<Rightarrow> fault + web_cache_t" where
  "cache_eviction sz c =
     (case c_add (size_c c) sz of
        Inl f \<Rightarrow> Inl f
      | Inr t \<Rightarrow>
          if t > MAX_CACHE_SIZE
          then (case evict_one c of Inl f \<Rightarrow> Inl f | Inr c' \<Rightarrow> cache_eviction sz c')
          else Inr c)"
  by pat_completeness auto
termination
  by (relation "measure (\<lambda>(sz, c). length (start c))") (auto dest: evict_one_shorter)

declare cache_eviction.simps [simp del]

text \<open>
  \<open>insert_into_cache\<close>: an empty list takes the object without a size check; otherwise
  eviction runs when the new total would reach the limit, and the object becomes the head.
\<close>

definition insert_into_cache :: "web_object_t \<Rightarrow> web_cache_t \<Rightarrow> fault + web_cache_t" where
  "insert_into_cache webObj c =
     (if start c = [] then Inr (c\<lparr>start := [webObj]\<rparr>)
      else
        (case c_add (size_c c) (objSize webObj) of
           Inl f \<Rightarrow> Inl f
         | Inr t \<Rightarrow>
             (case (if t \<ge> MAX_CACHE_SIZE then cache_eviction (objSize webObj) c else Inr c) of
                Inl f \<Rightarrow> Inl f
              | Inr c' \<Rightarrow> Inr (c'\<lparr>start := webObj # start c'\<rparr>))))"

text \<open>
  The three allocations of \<open>add_to_cache\<close> are decided by the caller of the model:
  all succeed, or the first \<open>malloc\<close> that returns NULL is the one for the object
  struct, the body copy or the key copy.
\<close>

datatype alloc = AllocOk | ObjNull | BufNull | KeyNull

text \<open>
  \<open>add_to_cache\<close>. Only a NULL object struct reaches a \<open>return true\<close>: the body and the
  key are copied into the new block before the block is tested, so a NULL there is
  written through. The body copy reads \<open>size\<close> bytes of \<open>cacheBuf\<close>.
\<close>

definition add_to_cache ::
  "string \<Rightarrow> string \<Rightarrow> int \<Rightarrow> alloc \<Rightarrow> web_cache_t \<Rightarrow> fault + (bool \<times> web_cache_t)" where
  "add_to_cache cache_key cacheBuf sz al c =
     (case get_obj_with_key cache_key (start c) of
        Some i \<Rightarrow> Inr (False, c)
      | None \<Rightarrow>
          (case al of
             ObjNull \<Rightarrow> Inr (True, c)
           | BufNull \<Rightarrow> Inl NullDeref
           | KeyNull \<Rightarrow> (if sz < 0 \<or> int (length cacheBuf) < sz then Inl OutOfBounds else Inl NullDeref)
           | AllocOk \<Rightarrow>
               if sz < 0 \<or> int (length cacheBuf) < sz then Inl OutOfBounds
               else
                 (case insert_into_cache
                         \<lparr>urlKey = cache_key, object = take (nat sz) cacheBuf, objSize = sz,
                          tStamp = LRU c, referenceCnt = 1\<rparr> c of
                    Inl f \<Rightarrow> Inl f
                  | Inr c' \<Rightarrow>
                      (case c_add (size_c c') sz of
                         Inl f \<Rightarrow> Inl f
                       | Inr t \<Rightarrow> Inr (False, c'\<lparr>size_c := t\<rparr>)))))"

text \<open>
  \<open>serve_cache\<close>. The clock is advanced first. On a hit the node is stamped and its
  count raised, \<open>objSize\<close> bytes of the body are written to \<open>fd\<close>, and the count is
  lowered again. The result carries the bytes written.
\<close>

definition serve_cache ::
  "int \<Rightarrow> string \<Rightarrow> web_cache_t \<Rightarrow> fault + (bool \<times> (int \<times> string) list \<times> web_cache_t)" where
  "serve_cache fd cache_key c =
     (case c_add (LRU c) 1 of
        Inl f \<Rightarrow> Inl f
      | Inr l \<Rightarrow>
          (case get_obj_with_key cache_key (start c) of
             None \<Rightarrow> Inr (False, [], c\<lparr>LRU := l\<rparr>)
           | Some i \<Rightarrow>
               (case c_add (referenceCnt (start c ! i)) 1 of
                  Inl f \<Rightarrow> Inl f
                | Inr r \<Rightarrow>
                    (case c_sub r 1 of
                       Inl f \<Rightarrow> Inl f
                     | Inr r' \<Rightarrow>
                         Inr (True,
                              [(fd, take (nat (objSize (start c ! i))) (object (start c ! i)))],
                              c\<lparr>LRU := l,
                                start := (start c)[i := (start c ! i)\<lparr>tStamp := l, referenceCnt := r'\<rparr>]\<rparr>)))))"

section \<open>Sequences of cache operations\<close>

text \<open>
  A history of the cache is a list of calls, run one after the other from a given state.
  \<open>Lookup\<close> is a call of \<open>serve_cache\<close>, \<open>Admit\<close> a call of \<open>add_to_cache\<close>.
\<close>

datatype cache_op = Lookup int string | Admit string string int alloc

fun apply_op :: "cache_op \<Rightarrow> web_cache_t \<Rightarrow> fault + web_cache_t" where
  "apply_op (Lookup fd cache_key) c =
     (case serve_cache fd cache_key c of Inl f \<Rightarrow> Inl f | Inr (hit, out, c') \<Rightarrow> Inr c')"
| "apply_op (Admit cache_key cacheBuf sz al) c =
     (case add_to_cache cache_key cacheBuf sz al c of Inl f \<Rightarrow> Inl f | Inr (r, c') \<Rightarrow> Inr c')"

fun apply_ops :: "cache_op list \<Rightarrow> web_cache_t \<Rightarrow> fault + web_cache_t" where
  "apply_ops [] c = Inr c"
| "apply_ops (x # xs) c = (case apply_op x c of Inl f \<Rightarrow> Inl f | Inr c' \<Rightarrow> apply_ops xs c')"

fun admit_size_ok :: "cache_op \<Rightarrow> bool" where
  "admit_size_ok (Lookup fd cache_key) = True"
| "admit_size_ok (Admit cache_key cacheBuf sz al) = (0 < sz \<and> sz \<le> MAX_OBJECT_SIZE)"

fun is_lookup :: "cache_op \<Rightarrow> bool" where
  "is_lookup (Lookup fd cache_key) = True"
| "is_lookup (Admit cache_key cacheBuf sz al) = False"

text \<open>The budget: the size field is the sum of the resident sizes and within the limit.\<close>

definition budget_inv :: "web_cache_t \<Rightarrow> bool" where
  "budget_inv c \<longleftrightarrow> size_c c = sum_list (map objSize (start c)) \<and> size_c c \<le> MAX_CACHE_SIZE"

text \<open>
  The calls that are known to return: an admission of a size in \<open>1..MAX_OBJECT_SIZE\<close>
  that the buffer holds, whose allocations succeed or fail at the first \<open>malloc\<close>; and
  any lookup. The states they pass through keep the budget, hold one reference per entry,
  and have no stamp above the clock.
\<close>

fun op_runs :: "cache_op \<Rightarrow> bool" where
  "op_runs (Lookup fd cache_key) = True"
| "op_runs (Admit cache_key cacheBuf sz al) =
     (0 < sz \<and> sz \<le> MAX_OBJECT_SIZE \<and> sz \<le> int (length cacheBuf) \<and> al \<in> {AllocOk, ObjNull})"

definition sound_state :: "web_cache_t \<Rightarrow> bool" where
  "sound_state c \<longleftrightarrow>
     budget_inv c \<and>
     (\<forall>x\<in>set (start c). referenceCnt x = 1 \<and> 0 \<le> objSize x \<and> objSize x \<le> MAX_OBJECT_SIZE \<and>
                           tStamp x \<le> LRU c) \<and>
     0 \<le> LRU c"

text \<open>
  What the proxy does for a list of fresh URLs: each request looks its URL up, misses,
  and admits the response, \<open>sz\<close> bytes of the buffer given with the URL.
\<close>

definition lookup_then_admit :: "int \<Rightarrow> int \<Rightarrow> (string \<times> string) list \<Rightarrow> cache_op list" where
  "lookup_then_admit fd sz kbs = concat (map (\<lambda>(k, b). [Lookup fd k, Admit k b sz AllocOk]) kbs)"

text \<open>
  The states such runs pass through: stamps strictly decreasing from the head, none above
  the clock, every entry of size \<open>s\<close> and held by the list alone, the size field the
  sum of the sizes, and no more entries than fit under the limit.
\<close>

definition lru_state :: "int \<Rightarrow> web_cache_t \<Rightarrow> bool" where
  "lru_state s c \<longleftrightarrow>
     sorted_wrt (>) (map tStamp (start c)) \<and>
     (\<forall>x\<in>set (start c). tStamp x \<le> LRU c \<and> referenceCnt x = 1 \<and> objSize x = s) \<and>
     size_c c = s * int (length (start c)) \<and>
     int (length (start c)) \<le> MAX_CACHE_SIZE div s \<and>
     0 \<le> LRU c"

text \<open>Eleven URLs and a body of \<open>MAX_OBJECT_SIZE\<close> bytes, for the examples.\<close>

definition eleven_urls :: "string list" where
  "eleven_urls = [''k01'', ''k02'', ''k03'', ''k04'', ''k05'', ''k06'', ''k07'', ''k08'', ''k09'',
                  ''k10'', ''k11'']"

definition full_block :: string where
  "full_block = replicate 102400 (CHR ''x'')"

section \<open>The connection pipeline of proxy.c\<close>

text \<open>
  One call of \<open>threadRoutine\<close> serves one client connection. What it does to the outside
  is recorded as a trace: each call of \<open>rio_writen\<close> with its descriptor and bytes, each
  call of \<open>open_clientfd\<close>, each call of \<open>add_to_cache\<close> with its three arguments and
  each \<open>close\<close>. Messages to \<open>stderr\<close> are left out.
\<close>

datatype event =
    Write int string
  | Connect string string
  | AddToCache string string int
  | Close int

text \<open>
  Modelled from the spec: \<open>http_parser.h\<close> is not among the sources. Section 6 gives the
  results of feeding a line to the parser as REQUEST, HEADER, ERROR and OTHER, and the
  retrievable fields as METHOD, HOST, PORT, PATH and URI.
\<close>

datatype parser_state = REQUEST | HEADER | ERROR | OTHER

datatype parser_field = METHOD | HOST | PORT | PATH | URI

text \<open>
  The parser itself is a parameter: its functions over a parser state of any type
  \<open>'p\<close>. \<open>parser_retrieve\<close> gives \<open>None\<close> where the C function returns nonzero;
  \<open>parser_lookup_header\<close> tells whether the result is not NULL;
  \<open>parser_retrieve_next_header\<close> gives the name of the header, or \<open>None\<close> for NULL.
\<close>

record 'p parser_lib =
  parser_new :: 'p
  parser_parse_line :: "'p \<Rightarrow> string \<Rightarrow> parser_state \<times> 'p"
  parser_retrieve :: "'p \<Rightarrow> parser_field \<Rightarrow> string option"
  parser_lookup_header :: "'p \<Rightarrow> string \<Rightarrow> bool"
  parser_retrieve_next_header :: "'p \<Rightarrow> string option \<times> 'p"

text \<open>
  The rest of the outside world, also a parameter. \<open>csapp.h\<close> is not among the sources,
  so its constants \<open>MAXLINE\<close> and \<open>MAXBUF\<close> are fields here. \<open>client_input\<close> and
  \<open>origin_input\<close> are the results of the successive reads of the client connection
  (\<open>rio_readlineb\<close>) and of the origin connection (\<open>rio_readnb\<close>); when a list is used
  up, or its next element is empty, the read returns a value \<open>\<le> 0\<close>; a line is
  shorter than \<open>MAXLINE\<close> and a block no longer than \<open>MAX_OBJECT_SIZE\<close>, the limits
  passed to the reads. \<open>rio_readnb\<close> copies what it has into the caller's array as it
  goes: it returns a count below the one asked for only when the input has ended, and
  \<open>- 1\<close> when a read of the descriptor fails, also after it has copied bytes.
  \<open>origin_partial\<close> holds the bytes that the last call, the one that returned a value
  \<open>\<le> 0\<close>, left at the start of the array: none when the input ended, fewer than
  \<open>MAX_OBJECT_SIZE\<close> when a read failed. \<open>client_ok\<close> and
  \<open>origin_ok\<close> tell whether \<open>rio_writen\<close> to that side succeeds. \<open>stale\<close> holds the
  bytes that lie in the array \<open>buffer\<close> behind the terminator of the request, \<open>cacheBuf0\<close>
  the bytes in the array \<open>cacheBuf\<close> before the first read; both arrays are locals that
  are never initialised. \<open>mallocs\<close> decides the allocations of \<open>add_to_cache\<close>.
\<close>

record world =
  MAXLINE :: nat
  MAXBUF :: nat
  client_input :: "string list"
  client_ok :: bool
  open_clientfd :: "string \<Rightarrow> string \<Rightarrow> int"
  origin_ok :: bool
  origin_input :: "string list"
  origin_partial :: string
  stale :: string
  cacheBuf0 :: string
  mallocs :: alloc

definition CRLF :: string where
  "CRLF = [CHR 0x0D, CHR 0x0A]"

definition header_user_agent :: string where
  "header_user_agent = ''Mozilla/5.0'' @ '' (X11; Linux x86_64; rv:3.10.0)'' @ '' Gecko/20210731 Firefox/63.0.1''"

text \<open>The decimal digits of a number, as \<open>%zu\<close> prints it.\<close>

function dec :: "nat \<Rightarrow> string" where
  "dec n = (if n < 10 then [''0123456789'' ! n]
            else dec (n div 10) @ [''0123456789'' ! (n mod 10)])"
  by pat_completeness auto
termination
  by (relation "measure id") auto

declare dec.simps [simp del]

text \<open>
  \<open>cleanup\<close> closes the origin descriptor, then the client descriptor, each unless it
  is \<open>-1\<close>.
\<close>

definition cleanup :: "int \<Rightarrow> int \<Rightarrow> event list" where
  "cleanup fd fd2 = (if fd2 = - 1 then [] else [Close fd2]) @ (if fd = - 1 then [] else [Close fd])"

text \<open>
  \<open>clienterror\<close> formats the body, then the headers with the length of the body, and
  writes the two. It gives up silently when either does not fit its array, and after the
  headers when their write fails.
\<close>

definition error_body :: "string \<Rightarrow> string \<Rightarrow> string \<Rightarrow> string" where
  "error_body errnum shortmsg longmsg =
     ''<!DOCTYPE html>'' @ CRLF @
     ''<html>'' @ CRLF @
     ''<head><title>Server Error</title></head>'' @ CRLF @
     ''<body bgcolor='' @ [CHR 0x22] @ ''ffffff'' @ [CHR 0x22] @ ''>'' @ CRLF @
     ''<h1>'' @ errnum @ '': '' @ shortmsg @ ''</h1>'' @ CRLF @
     ''<p>'' @ longmsg @ ''</p>'' @ CRLF @
     ''</body></html>'' @ CRLF"

definition error_headers :: "string \<Rightarrow> string \<Rightarrow> nat \<Rightarrow> string" where
  "error_headers errnum shortmsg bodylen =
     ''HTTP/1.0 '' @ errnum @ '' '' @ shortmsg @ CRLF @
     ''Content-Type: text/html'' @ CRLF @
     ''Content-Length: '' @ dec bodylen @ CRLF @ CRLF"

definition clienterror :: "world \<Rightarrow> int \<Rightarrow> string \<Rightarrow> string \<Rightarrow> string \<Rightarrow> event list" where
  "clienterror w fd errnum shortmsg longmsg =
     (if length (error_body errnum shortmsg longmsg) \<ge> MAXBUF w then []
      else if length (error_headers errnum shortmsg (length (error_body errnum shortmsg longmsg)))
                \<ge> MAXLINE w then []
      else if client_ok w
      then [Write fd (error_headers errnum shortmsg (length (error_body errnum shortmsg longmsg))),
            Write fd (error_body errnum shortmsg longmsg)]
      else [Write fd (error_headers errnum shortmsg (length (error_body errnum shortmsg longmsg)))])"

text \<open>
  A read of one line: the next element of the input and the input that remains. The
  count the C function returns is the length of the element. The loops below take the
  elements off their lists in the same way.
\<close>

definition rio_readlineb :: "string list \<Rightarrow> string \<times> string list" where
  "rio_readlineb rp = (case rp of [] \<Rightarrow> ([], []) | x # rest \<Rightarrow> (x, rest))"

text \<open>
  The call \<open>sscanf(buffer, "%s %s HTTP/1.%c\r\n", method, uri, &version)\<close>. A \<open>%s\<close>
  skips white space and takes the characters up to the next white space; a blank in the
  format skips white space; the other characters must match; \<open>%c\<close> takes one
  character. The model gives the three values when the call returns 3, and \<open>None\<close>
  otherwise.
\<close>

definition isspace :: "char \<Rightarrow> bool" where
  "isspace ch = (ch \<in> set [CHR 0x20, CHR 0x09, CHR 0x0A, CHR 0x0B, CHR 0x0C, CHR 0x0D])"

definition scan_token :: "string \<Rightarrow> (string \<times> string) option" where
  "scan_token s =
     (if takeWhile (\<lambda>ch. \<not> isspace ch) (dropWhile isspace s) = [] then None
      else Some (takeWhile (\<lambda>ch. \<not> isspace ch) (dropWhile isspace s),
                 dropWhile (\<lambda>ch. \<not> isspace ch) (dropWhile isspace s)))"

fun match_literal :: "string \<Rightarrow> string \<Rightarrow> string option" where
  "match_literal [] s = Some s"
| "match_literal (c # cs) [] = None"
| "match_literal (c # cs) (x # xs) = (if c = x then match_literal cs xs else None)"

definition sscanf_request :: "string \<Rightarrow> (string \<times> string \<times> char) option" where
  "sscanf_request buffer =
     (case scan_token buffer of
        None \<Rightarrow> None
      | Some (method, r1) \<Rightarrow>
          (case scan_token r1 of
             None \<Rightarrow> None
           | Some (uri, r2) \<Rightarrow>
               (case match_literal ''HTTP/1.'' (dropWhile isspace r2) of
                  None \<Rightarrow> None
                | Some r3 \<Rightarrow>
                    (case r3 of [] \<Rightarrow> None | version # r4 \<Rightarrow> Some (method, uri, version)))))"

text \<open>
  \<open>read_requestline\<close> returns the count (\<open>-1\<close> on every rejection), the contents of
  \<open>buffer\<close> as a string, the parser, the input that remains and the trace. A method other
  than GET is answered with 501 before the \<open>-1\<close>.
\<close>

definition read_requestline ::
  "'p parser_lib \<Rightarrow> world \<Rightarrow> int \<Rightarrow> string list \<Rightarrow> 'p \<Rightarrow>
     int \<times> string \<times> 'p \<times> string list \<times> event list" where
  "read_requestline P w connfd rp pars =
     (case rio_readlineb rp of (buffer, rp') \<Rightarrow>
        if buffer = [] then (- 1, buffer, pars, rp', [])
        else
          (case parser_parse_line P pars buffer of (mPs, pars') \<Rightarrow>
             if mPs = REQUEST then
               (case sscanf_request buffer of
                  None \<Rightarrow> (- 1, buffer, pars', rp', [])
                | Some (method, uri, version) \<Rightarrow>
                    if version = CHR ''0'' \<or> version = CHR ''1'' then
                      if method = ''GET'' then
                        (case parser_retrieve P pars' PATH of
                           None \<Rightarrow> (- 1, buffer, pars', rp', [])
                         | Some mPath \<Rightarrow>
                             (int (length (method @ '' '' @ mPath @ '' HTTP/1.0'' @ CRLF)),
                              take (MAXLINE w - 1) (method @ '' '' @ mPath @ '' HTTP/1.0'' @ CRLF),
                              pars', rp', []))
                      else (- 1, buffer, pars', rp',
                            clienterror w connfd ''501'' ''Not Implemented''
                              ''Server couldn't find this file'')
                    else (- 1, buffer, pars', rp', []))
             else (- 1, buffer, pars', rp', [])))"

text \<open>
  \<open>sprintf\<close> into the array \<open>buf\<close> of \<open>MAXLINE\<close> cells, and \<open>strncat\<close> of at most \<open>n\<close>
  characters onto the request, which lives in the array \<open>buffer\<close> of \<open>MAXBUF\<close> cells.
  Either needs one cell for the terminator.
\<close>

definition sprintf_buf :: "world \<Rightarrow> string \<Rightarrow> fault + string" where
  "sprintf_buf w s = (if length s < MAXLINE w then Inr s else Inl BufferOverflow)"

definition strncat :: "world \<Rightarrow> string \<Rightarrow> string \<Rightarrow> nat \<Rightarrow> fault + string" where
  "strncat w fBuf src n =
     (if length (fBuf @ take n src) < MAXBUF w then Inr (fBuf @ take n src) else Inl BufferOverflow)"

text \<open>
  The end of the headers in \<open>read_request\<close>: a Host header is made from the parsed URL
  when the request had none, then the fixed User-Agent, Connection and Proxy-Connection
  headers and the empty line follow. The result is the error flag and the request.
\<close>

definition add_own_headers :: "world \<Rightarrow> string \<Rightarrow> fault + string" where
  "add_own_headers w fBuf =
     (case sprintf_buf w (''User-Agent: '' @ header_user_agent @ CRLF) of
        Inl f \<Rightarrow> Inl f
      | Inr buf \<Rightarrow>
          (case strncat w fBuf buf (MAXLINE w) of
             Inl f \<Rightarrow> Inl f
           | Inr fBuf1 \<Rightarrow>
               (case strncat w fBuf1 (''Connection: close'' @ CRLF) (MAXLINE w) of
                  Inl f \<Rightarrow> Inl f
                | Inr fBuf2 \<Rightarrow>
                    (case strncat w fBuf2 (''Proxy-Connection: close'' @ CRLF) (MAXLINE w) of
                       Inl f \<Rightarrow> Inl f
                     | Inr fBuf3 \<Rightarrow> strncat w fBuf3 CRLF (MAXLINE w)))))"

definition end_of_headers ::
  "'p parser_lib \<Rightarrow> world \<Rightarrow> 'p \<Rightarrow> string \<Rightarrow> fault + (bool \<times> string)" where
  "end_of_headers P w pars fBuf =
     (if parser_lookup_header P pars ''Host''
      then (case add_own_headers w fBuf of Inl f \<Rightarrow> Inl f | Inr r \<Rightarrow> Inr (False, r))
      else
        (case parser_retrieve P pars HOST of
           None \<Rightarrow> Inr (True, fBuf)
         | Some mHost \<Rightarrow>
             (case parser_retrieve P pars PORT of
                None \<Rightarrow> Inr (True, fBuf)
              | Some mPort \<Rightarrow>
                  (case sprintf_buf w (''Host: '' @ mHost @ '':'' @ mPort @ CRLF) of
                     Inl f \<Rightarrow> Inl f
                   | Inr buf \<Rightarrow>
                       (case strncat w fBuf buf (MAXLINE w) of
                          Inl f \<Rightarrow> Inl f
                        | Inr fBuf1 \<Rightarrow>
                            (case add_own_headers w fBuf1 of
                               Inl f \<Rightarrow> Inl f
                             | Inr r \<Rightarrow> Inr (False, r)))))))"

text \<open>
  The loop of \<open>read_request\<close> over the header lines. A header other than
  Proxy-Connection, Connection and User-Agent is appended as it was read.
\<close>

fun read_headers ::
  "'p parser_lib \<Rightarrow> world \<Rightarrow> string list \<Rightarrow> 'p \<Rightarrow> string \<Rightarrow> fault + (bool \<times> string \<times> 'p)" where
  "read_headers P w [] pars fBuf = Inr (True, fBuf, pars)"
| "read_headers P w (buf # rp) pars fBuf =
     (if buf = [] then Inr (True, fBuf, pars)
      else if buf = CRLF then
        (case end_of_headers P w pars fBuf of
           Inl f \<Rightarrow> Inl f
         | Inr (err, r) \<Rightarrow> Inr (err, r, pars))
      else
        (case parser_parse_line P pars buf of (ps, pars') \<Rightarrow>
           if ps = ERROR \<or> ps = REQUEST then Inr (True, fBuf, pars')
           else if ps = HEADER then
             (case parser_retrieve_next_header P pars' of
                (None, pars'') \<Rightarrow> read_headers P w rp pars'' fBuf
              | (Some name, pars'') \<Rightarrow>
                  if name = ''Proxy-Connection'' then read_headers P w rp pars'' fBuf
                  else if name = ''Connection'' then read_headers P w rp pars'' fBuf
                  else if name = ''User-Agent'' then read_headers P w rp pars'' fBuf
                  else
                    (case strncat w fBuf buf (length buf) of
                       Inl f \<Rightarrow> Inl f
                     | Inr fBuf' \<Rightarrow> read_headers P w rp pars'' fBuf'))
           else read_headers P w rp pars' fBuf))"

text \<open>\<open>read_request\<close>: the error flag, the request, the parser and the trace.\<close>

definition read_request ::
  "'p parser_lib \<Rightarrow> world \<Rightarrow> int \<Rightarrow> string list \<Rightarrow> 'p \<Rightarrow>
     fault + (bool \<times> string \<times> 'p \<times> event list)" where
  "read_request P w connfd rp pars =
     (case read_requestline P w connfd rp pars of (n, fBuf, pars', rp', evs) \<Rightarrow>
        if n \<le> 0 then Inr (True, fBuf, pars', evs)
        else
          (case read_headers P w rp' pars' fBuf of
             Inl f \<Rightarrow> Inl f
           | Inr (err, fBuf', pars'') \<Rightarrow> Inr (err, fBuf', pars'', evs)))"

text \<open>
  The loop of \<open>threadRoutine\<close> over the blocks read from the origin. Each block lands at
  the start of \<open>cacheBuf\<close>, over what was there, and is written to the client. The
  call that ends the loop leaves \<open>partial\<close> at the start of the array. The
  result is the trace, the final \<open>cacheBuf\<close>, \<open>totalBytesR\<close> and \<open>is_cacheable\<close>.
\<close>

fun relay ::
  "int \<Rightarrow> string \<Rightarrow> string list \<Rightarrow> string \<Rightarrow> int \<Rightarrow> bool \<Rightarrow>
     fault + (event list \<times> string \<times> int \<times> bool)" where
  "relay connfd partial [] cacheBuf totalBytesR is_cacheable =
     Inr ([], partial @ drop (length partial) cacheBuf, totalBytesR, is_cacheable)"
| "relay connfd partial (block # rio2) cacheBuf totalBytesR is_cacheable =
     (if block = []
      then Inr ([], partial @ drop (length partial) cacheBuf, totalBytesR, is_cacheable)
      else
        (case c_add totalBytesR (int (length block)) of
           Inl f \<Rightarrow> Inl f
         | Inr t \<Rightarrow>
             (case relay connfd partial rio2 (block @ drop (length block) cacheBuf) t
                     (if t > MAX_OBJECT_SIZE then False else is_cacheable) of
                Inl f \<Rightarrow> Inl f
              | Inr (evs, cacheBuf', t', cacheable') \<Rightarrow>
                  Inr (Write connfd block # evs, cacheBuf', t', cacheable'))))"

text \<open>
  The bytes of the array \<open>buffer\<close> that the write to the origin sends: \<open>MAXBUF\<close> of them,
  the request, its terminator and what lies behind it.
\<close>

definition buffer_image :: "world \<Rightarrow> string \<Rightarrow> string" where
  "buffer_image w buffer = take (MAXBUF w) (buffer @ CHR 0x00 # stale w)"

text \<open>
  \<open>threadRoutine\<close> after a cache miss: connect to the origin, send the request, relay
  the response and hand it to the cache.
\<close>

definition fetch_from_origin ::
  "world \<Rightarrow> int \<Rightarrow> string \<Rightarrow> string \<Rightarrow> string \<Rightarrow> string \<Rightarrow> web_cache_t \<Rightarrow>
     fault + (event list \<times> web_cache_t)" where
  "fetch_from_origin w connfd buffer mHost mPort mURI c =
     (if open_clientfd w mHost mPort < 0
      then Inr (Connect mHost mPort # cleanup connfd (open_clientfd w mHost mPort), c)
      else if origin_ok w then
        (case relay connfd (origin_partial w) (origin_input w) (cacheBuf0 w) 0 True of
           Inl f \<Rightarrow> Inl f
         | Inr (evs, cacheBuf, totalBytesR, is_cacheable) \<Rightarrow>
             if is_cacheable then
               (case add_to_cache mURI cacheBuf totalBytesR (mallocs w) c of
                  Inl f \<Rightarrow> Inl f
                | Inr (r, c') \<Rightarrow>
                    Inr (Connect mHost mPort #
                         Write (open_clientfd w mHost mPort) (buffer_image w buffer) #
                         evs @ AddToCache mURI cacheBuf totalBytesR #
                         cleanup connfd (open_clientfd w mHost mPort), c'))
             else
               Inr (Connect mHost mPort #
                    Write (open_clientfd w mHost mPort) (buffer_image w buffer) #
                    evs @ cleanup connfd (open_clientfd w mHost mPort), c))
      else
        Inr (Connect mHost mPort #
             Write (open_clientfd w mHost mPort) (buffer_image w buffer) #
             clienterror w connfd ''500'' ''Server Error'' ''Cannot write to server'' @
             cleanup connfd (open_clientfd w mHost mPort), c))"

text \<open>\<open>threadRoutine\<close>, for the connection \<open>connfd\<close> and the cache \<open>c\<close>.\<close>

definition threadRoutine ::
  "'p parser_lib \<Rightarrow> world \<Rightarrow> int \<Rightarrow> web_cache_t \<Rightarrow> fault + (event list \<times> web_cache_t)" where
  "threadRoutine P w connfd c =
     (case read_request P w connfd (client_input w) (parser_new P) of
        Inl f \<Rightarrow> Inl f
      | Inr (err, buffer, mParser, evs) \<Rightarrow>
          if err then
            Inr (evs @ clienterror w connfd ''400'' ''Bad Request'' ''Received a malformed request'' @
                 cleanup connfd (- 1), c)
          else
            (case parser_retrieve P mParser PORT of
               None \<Rightarrow>
                 Inr (evs @ clienterror w connfd ''400'' ''Bad Request'' ''Received a malformed request'' @
                      cleanup connfd (- 1), c)
             | Some mPort \<Rightarrow>
                 (case parser_retrieve P mParser HOST of
                    None \<Rightarrow>
                      Inr (evs @ clienterror w connfd ''400'' ''Bad Request'' ''Received a malformed request'' @
                           cleanup connfd (- 1), c)
                  | Some mHost \<Rightarrow>
                      (case parser_retrieve P mParser URI of
                         None \<Rightarrow>
                           Inr (evs @ clienterror w connfd ''400'' ''Bad Request''
                                  ''Received a malformed request'' @ cleanup connfd (- 1), c)
                       | Some mURI \<Rightarrow>
                           (case serve_cache connfd mURI c of
                              Inl f \<Rightarrow> Inl f
                            | Inr (hit, out, c1) \<Rightarrow>
                                if hit
                                then Inr (evs @ map (\<lambda>(fd, bytes). Write fd bytes) out @
                                          cleanup connfd (- 1), c1)
                                else
                                  (case fetch_from_origin w connfd buffer mHost mPort mURI c1 of
                                     Inl f \<Rightarrow> Inl f
                                   | Inr (evs', c2) \<Rightarrow> Inr (evs @ evs', c2)))))))"

text \<open>The blocks the relay loop takes: those before the first read that returns nothing.\<close>

definition received :: "string list \<Rightarrow> string list" where
  "received blocks = takeWhile (\<lambda>block. block \<noteq> []) blocks"

subsection \<open>An instance for the examples\<close>

text \<open>
  A parser and a world on which the pipeline can be run. The parser takes a line that
  \<open>sscanf_request\<close> matches for a request line, any other line with a colon for a
  header, and keeps the names of the headers it has seen; its fields are those of the URL
  \<open>http://h:80/x\<close>. In the world every write succeeds, \<open>open_clientfd\<close> returns
  descriptor 5, both constants of \<open>csapp.h\<close> are 8192, every allocation succeeds,
  the input of the origin ends without a failed read and the arrays start out filled with
  zero bytes.
\<close>

definition example_parser :: "string list parser_lib" where
  "example_parser =
     \<lparr>parser_new = [],
      parser_parse_line = (\<lambda>p line.
         if sscanf_request line = None
         then (if CHR '':'' \<in> set line
               then (HEADER, takeWhile (\<lambda>ch. ch \<noteq> CHR '':'') line # p)
               else (ERROR, p))
         else (REQUEST, p)),
      parser_retrieve = (\<lambda>p f.
         case f of METHOD \<Rightarrow> None | HOST \<Rightarrow> Some ''h'' | PORT \<Rightarrow> Some ''80''
                 | PATH \<Rightarrow> Some ''/x'' | URI \<Rightarrow> Some ''http://h:80/x''),
      parser_lookup_header = (\<lambda>p name. name \<in> set p),
      parser_retrieve_next_header = (\<lambda>p. (case p of [] \<Rightarrow> None | h # t \<Rightarrow> Some h, p))\<rparr>"

definition example_world :: "string list \<Rightarrow> string list \<Rightarrow> world" where
  "example_world lines blocks =
     \<lparr>MAXLINE = 8192, MAXBUF = 8192, client_input = lines, client_ok = True,
      open_clientfd = (\<lambda>host port. 5), origin_ok = True, origin_input = blocks,
      origin_partial = [], stale = replicate 8192 (CHR 0x00), cacheBuf0 = replicate 102400 (CHR 0x00),
      mallocs = AllocOk\<rparr>"

text \<open>The request for \<open>http://h:80/x\<close> as a client sends it, and as the proxy rewrites it.\<close>

definition example_get :: "string list" where
  "example_get = [''GET http://h:80/x HTTP/1.1'' @ CRLF, CRLF]"

definition example_request :: string where
  "example_request =
     ''GET /x HTTP/1.0'' @ CRLF @ ''Host: h:80'' @ CRLF @
     ''User-Agent: '' @ header_user_agent @ CRLF @
     ''Connection: close'' @ CRLF @ ''Proxy-Connection: close'' @ CRLF @ CRLF"


section \<open>Properties of the cache\<close>

lemma key_match_iff:
  "(length key = length k \<and> take (length key) k = take (length key) key) \<longleftrightarrow> k = key"
  by auto

lemma get_obj_with_key_Cons:
  "get_obj_with_key key (x # xs) =
     (if urlKey x = key then Some 0 else map_option Suc (get_obj_with_key key xs))"
  using key_match_iff [of key "urlKey x"] by (simp del: take_all_iff)

declare get_obj_with_key.simps(2) [simp del]

lemma get_obj_with_key_Some:
  "get_obj_with_key key xs = Some i \<Longrightarrow> i < length xs \<and> urlKey (xs ! i) = key"
proof (induction xs arbitrary: i)
  case Nil
  then show ?case by simp
next
  case (Cons x xs)
  show ?case
  proof (cases "urlKey x = key")
    case True
    with Cons.prems show ?thesis by (auto simp: get_obj_with_key_Cons)
  next
    case False
    with Cons.prems obtain j where "get_obj_with_key key xs = Some j" "i = Suc j"
      by (auto simp: get_obj_with_key_Cons)
    with Cons.IH [of j] show ?thesis by simp
  qed
qed

lemma get_obj_with_key_None:
  "get_obj_with_key key xs = None \<longleftrightarrow> key \<notin> urlKey ` set xs"
  by (induction xs) (auto simp: get_obj_with_key_Cons)

lemma c_add_Inr: "c_add a b = Inr t \<Longrightarrow> t = a + b"
  by (simp add: c_add_def split: if_splits)

lemma c_sub_Inr: "c_sub a b = Inr t \<Longrightarrow> t = a - b"
  by (simp add: c_sub_def split: if_splits)

text \<open>The equations that evaluate a run of the cache on concrete arguments.\<close>

lemmas cache_eval = apply_ops.simps apply_op.simps serve_cache_def add_to_cache_def
  insert_into_cache_def c_add_def c_sub_def INT_MAX_def INT_MIN_def MAX_CACHE_SIZE_def
  MAX_OBJECT_SIZE_def init_web_cache_def get_obj_with_key_Cons

text \<open>What a returning lookup did: either a miss or a hit at one position.\<close>

lemma serve_cache_Inr:
  assumes "serve_cache fd key c = Inr (hit, out, c')"
  shows "(get_obj_with_key key (start c) = None \<and> \<not> hit \<and> out = [] \<and>
            c' = c\<lparr>LRU := LRU c + 1\<rparr>) \<or>
         (\<exists>i. get_obj_with_key key (start c) = Some i \<and> i < length (start c) \<and> hit \<and>
            out = [(fd, take (nat (objSize (start c ! i))) (object (start c ! i)))] \<and>
            c' = c\<lparr>LRU := LRU c + 1,
                   start := (start c)[i := (start c ! i)\<lparr>tStamp := LRU c + 1\<rparr>]\<rparr>)"
proof (cases "get_obj_with_key key (start c)")
  case None
  with assms show ?thesis
    by (auto simp: serve_cache_def split: sum.splits dest!: c_add_Inr)
next
  case (Some i)
  then have "i < length (start c)" by (simp add: get_obj_with_key_Some)
  with assms Some show ?thesis
    by (auto simp: serve_cache_def split: sum.splits dest!: c_add_Inr c_sub_Inr)
qed

text \<open>
  C10. A lookup that returns leaves the size field, the number of entries and the key,
  body and size of every entry as they were; every entry other than the one found is
  unchanged in all its fields, and a miss leaves the whole list unchanged. Only the
  clock and, on a hit, the stamp of the found entry differ (its reference count is
  raised for the write and lowered again).
\<close>

theorem serve_cache_frame:
  assumes "serve_cache fd key c = Inr (hit, out, c')"
  shows "size_c c' = size_c c \<and>
         length (start c') = length (start c) \<and>
         map urlKey (start c') = map urlKey (start c) \<and>
         map object (start c') = map object (start c) \<and>
         map objSize (start c') = map objSize (start c) \<and>
         map referenceCnt (start c') = map referenceCnt (start c) \<and>
         (\<forall>i < length (start c). get_obj_with_key key (start c) \<noteq> Some i \<longrightarrow>
              start c' ! i = start c ! i) \<and>
         (\<not> hit \<longrightarrow> start c' = start c) \<and>
         (hit \<longleftrightarrow> key \<in> urlKey ` set (start c))"
  using serve_cache_Inr [OF assms]
proof (elim disjE conjE exE)
  assume "get_obj_with_key key (start c) = None" "\<not> hit" "c' = c\<lparr>LRU := LRU c + 1\<rparr>"
  then show ?thesis by (simp add: get_obj_with_key_None)
next
  fix i
  assume i: "get_obj_with_key key (start c) = Some i" "i < length (start c)" and hit: "hit"
    and c': "c' = c\<lparr>LRU := LRU c + 1,
                   start := (start c)[i := (start c ! i)\<lparr>tStamp := LRU c + 1\<rparr>]\<rparr>"
  have "key \<in> urlKey ` set (start c)"
    using i get_obj_with_key_None [of key "start c"] by auto
  moreover have "map urlKey (start c') = map urlKey (start c)"
    using i by (simp add: c' map_update list_update_same_conv)
  moreover have "map object (start c') = map object (start c)"
    using i by (simp add: c' map_update list_update_same_conv)
  moreover have "map objSize (start c') = map objSize (start c)"
    using i by (simp add: c' map_update list_update_same_conv)
  moreover have "map referenceCnt (start c') = map referenceCnt (start c)"
    using i by (simp add: c' map_update list_update_same_conv)
  ultimately show ?thesis using hit i by (auto simp: c')
qed

theorem serve_cache_frame_witness:
  "serve_cache 4 ''u''
     \<lparr>start = [\<lparr>urlKey = ''a'', object = ''xyz'', objSize = 3, tStamp = 2, referenceCnt = 1\<rparr>,
               \<lparr>urlKey = ''u'', object = ''hello'', objSize = 5, tStamp = 1, referenceCnt = 1\<rparr>],
      size_c = 8, LRU = 2\<rparr>
   = Inr (True, [(4, ''hello'')],
     \<lparr>start = [\<lparr>urlKey = ''a'', object = ''xyz'', objSize = 3, tStamp = 2, referenceCnt = 1\<rparr>,
               \<lparr>urlKey = ''u'', object = ''hello'', objSize = 5, tStamp = 3, referenceCnt = 1\<rparr>],
      size_c = 8, LRU = 3\<rparr>) \<and>
   map urlKey (start
     \<lparr>start = [\<lparr>urlKey = ''a'', object = ''xyz'', objSize = 3, tStamp = 2, referenceCnt = 1\<rparr>,
               \<lparr>urlKey = ''u'', object = ''hello'', objSize = 5, tStamp = 3, referenceCnt = 1\<rparr>],
      size_c = 8, LRU = 3\<rparr>) = [''a'', ''u'']"
proof -
  have run: "serve_cache 4 ''u''
     \<lparr>start = [\<lparr>urlKey = ''a'', object = ''xyz'', objSize = 3, tStamp = 2, referenceCnt = 1\<rparr>,
               \<lparr>urlKey = ''u'', object = ''hello'', objSize = 5, tStamp = 1, referenceCnt = 1\<rparr>],
      size_c = 8, LRU = 2\<rparr>
   = Inr (True, [(4, ''hello'')],
     \<lparr>start = [\<lparr>urlKey = ''a'', object = ''xyz'', objSize = 3, tStamp = 2, referenceCnt = 1\<rparr>,
               \<lparr>urlKey = ''u'', object = ''hello'', objSize = 5, tStamp = 3, referenceCnt = 1\<rparr>],
      size_c = 8, LRU = 3\<rparr>)"
    by (simp add: cache_eval)
  from serve_cache_frame [OF run] run show ?thesis by simp
qed

lemma sum_list_remove_nth:
  "i < length xs \<Longrightarrow>
   sum_list (map f (take i xs @ drop (Suc i) xs)) = sum_list (map f xs) - (f (xs ! i) :: int)"
proof -
  assume "i < length xs"
  then have "xs = take i xs @ xs ! i # drop (Suc i) xs" by (rule id_take_nth_drop)
  then have "sum_list (map f xs) = sum_list (map f (take i xs @ xs ! i # drop (Suc i) xs))"
    by simp
  then show ?thesis by simp
qed

lemma evict_one_sum:
  assumes "evict_one c = Inr c'" and "size_c c = sum_list (map objSize (start c))"
  shows "size_c c' = sum_list (map objSize (start c')) \<and> LRU c' = LRU c"
proof -
  from assms(1) obtain i where i: "scan_min (start c) 0 INT_MAX None = Some i"
    and c': "c' = c\<lparr>start := take i (start c) @ drop (Suc i) (start c),
                     size_c := size_c c - objSize (start c ! i)\<rparr>"
    by (auto simp: evict_one_def split: option.splits sum.splits if_splits dest!: c_sub_Inr)
  from i have "i < length (start c)" by (rule scan_min_in_range)
  then show ?thesis
    using assms(2) sum_list_remove_nth [of i "start c" objSize] by (simp add: c')
qed

lemma cache_eviction_sum:
  "cache_eviction sz c = Inr c' \<Longrightarrow> size_c c = sum_list (map objSize (start c)) \<Longrightarrow>
   size_c c' = sum_list (map objSize (start c')) \<and> size_c c' + sz \<le> MAX_CACHE_SIZE \<and> LRU c' = LRU c"
proof (induction sz c rule: cache_eviction.induct)
  case (1 sz c)
  from "1.prems"(1) obtain t where t: "c_add (size_c c) sz = Inr t"
    by (subst (asm) cache_eviction.simps) (auto split: sum.splits)
  then have t_eq: "t = size_c c + sz" by (rule c_add_Inr)
  show ?case
  proof (cases "t > MAX_CACHE_SIZE")
    case True
    with "1.prems"(1) t obtain c1 where c1: "evict_one c = Inr c1"
      and rest: "cache_eviction sz c1 = Inr c'"
      by (subst (asm) cache_eviction.simps) (auto split: sum.splits)
    from evict_one_sum [OF c1 "1.prems"(2)]
    have s1: "size_c c1 = sum_list (map objSize (start c1))" and l1: "LRU c1 = LRU c" by simp_all
    from "1.IH" [OF t True c1 rest s1] l1 show ?thesis by simp
  next
    case False
    with "1.prems"(1) t have "c' = c"
      by (subst (asm) cache_eviction.simps) auto
    with False t_eq "1.prems"(2) show ?thesis by simp
  qed
qed

lemma insert_into_cache_budget:
  assumes "insert_into_cache w c = Inr c'" and "budget_inv c" and "objSize w \<le> MAX_OBJECT_SIZE"
  shows "size_c c' + objSize w = sum_list (map objSize (start c')) \<and>
         size_c c' + objSize w \<le> MAX_CACHE_SIZE \<and> LRU c' = LRU c"
proof (cases "start c = []")
  case True
  with assms show ?thesis
    by (auto simp: insert_into_cache_def budget_inv_def MAX_OBJECT_SIZE_def MAX_CACHE_SIZE_def)
next
  case False
  from assms(1) False obtain t where t: "c_add (size_c c) (objSize w) = Inr t"
    by (auto simp: insert_into_cache_def split: sum.splits)
  then have t_eq: "t = size_c c + objSize w" by (rule c_add_Inr)
  show ?thesis
  proof (cases "t \<ge> MAX_CACHE_SIZE")
    case True
    with assms(1) False t obtain c1 where c1: "cache_eviction (objSize w) c = Inr c1"
      and c': "c' = c1\<lparr>start := w # start c1\<rparr>"
      by (auto simp: insert_into_cache_def split: sum.splits)
    from cache_eviction_sum [OF c1] assms(2) show ?thesis
      by (simp add: c' budget_inv_def)
  next
    case False
    with assms(1) \<open>start c \<noteq> []\<close> t have "c' = c\<lparr>start := w # start c\<rparr>"
      by (auto simp: insert_into_cache_def split: sum.splits)
    with False t_eq assms(2) show ?thesis by (simp add: budget_inv_def)
  qed
qed

lemma add_to_cache_budget:
  assumes "add_to_cache k b sz al c = Inr (r, c')" and "budget_inv c" and "sz \<le> MAX_OBJECT_SIZE"
  shows "budget_inv c' \<and> LRU c' = LRU c"
proof (cases "get_obj_with_key k (start c) = None \<and> al = AllocOk")
  case False
  with assms(1,2) show ?thesis
    by (cases al) (auto simp: add_to_cache_def split: option.splits if_splits)
next
  case True
  let ?w = "\<lparr>urlKey = k, object = take (nat sz) b, objSize = sz, tStamp = LRU c, referenceCnt = 1\<rparr>"
  from assms(1) True obtain c1 t where c1: "insert_into_cache ?w c = Inr c1"
    and t: "c_add (size_c c1) sz = Inr t" and c': "c' = c1\<lparr>size_c := t\<rparr>"
    by (auto simp: add_to_cache_def split: sum.splits if_splits)
  from insert_into_cache_budget [OF c1 assms(2)] assms(3) c_add_Inr [OF t]
  show ?thesis by (simp add: c' budget_inv_def)
qed

lemma serve_cache_budget:
  assumes "serve_cache fd k c = Inr (hit, out, c')" and "budget_inv c"
  shows "budget_inv c'"
proof -
  have "map objSize (start c') = map objSize (start c) \<and> size_c c' = size_c c"
    using serve_cache_Inr [OF assms(1)] by (auto simp: map_update list_update_same_conv)
  with assms(2) show ?thesis by (simp add: budget_inv_def)
qed

lemma apply_op_budget:
  "apply_op x c = Inr c' \<Longrightarrow> admit_size_ok x \<Longrightarrow> budget_inv c \<Longrightarrow> budget_inv c'"
  by (cases x) (auto split: sum.splits dest: serve_cache_budget add_to_cache_budget)

lemma apply_ops_budget:
  "apply_ops xs c = Inr c' \<Longrightarrow> \<forall>x\<in>set xs. admit_size_ok x \<Longrightarrow> budget_inv c \<Longrightarrow> budget_inv c'"
proof (induction xs arbitrary: c)
  case Nil
  then show ?case by simp
next
  case (Cons x xs)
  from Cons.prems(1) obtain c1 where c1: "apply_op x c = Inr c1" and r: "apply_ops xs c1 = Inr c'"
    by (auto split: sum.splits)
  from apply_op_budget [OF c1] Cons.prems have "budget_inv c1" by simp
  from Cons.IH [OF r _ this] Cons.prems(2) show ?case by simp
qed

text \<open>
  C2. After any sequence of lookups and admissions, each admission of a size in
  \<open>1..MAX_OBJECT_SIZE\<close>, run from the empty cache, the size field equals the sum of
  the sizes of the resident entries and is at most \<open>MAX_CACHE_SIZE\<close>.
\<close>

theorem total_bytes_budget:
  assumes "\<forall>x\<in>set ops. admit_size_ok x"
    and "apply_ops ops init_web_cache = Inr c"
  shows "size_c c = sum_list (map objSize (start c)) \<and> size_c c \<le> MAX_CACHE_SIZE"
proof -
  have "budget_inv init_web_cache"
    by (simp add: budget_inv_def init_web_cache_def MAX_CACHE_SIZE_def)
  from apply_ops_budget [OF assms(2,1) this] show ?thesis by (simp add: budget_inv_def)
qed


theorem total_bytes_budget_witness:
  "apply_ops [Lookup 4 ''u'', Admit ''u'' ''hello'' 5 AllocOk, Lookup 4 ''u''] init_web_cache
     = Inr \<lparr>start = [\<lparr>urlKey = ''u'', object = ''hello'', objSize = 5, tStamp = 2, referenceCnt = 1\<rparr>],
            size_c = 5, LRU = 2\<rparr> \<and>
   size_c \<lparr>start = [\<lparr>urlKey = ''u'', object = ''hello'', objSize = 5, tStamp = 2, referenceCnt = 1\<rparr>],
            size_c = 5, LRU = 2\<rparr>
     = sum_list (map objSize (start
         \<lparr>start = [\<lparr>urlKey = ''u'', object = ''hello'', objSize = 5, tStamp = 2, referenceCnt = 1\<rparr>],
          size_c = 5, LRU = 2\<rparr>)) \<and>
   size_c \<lparr>start = [\<lparr>urlKey = ''u'', object = ''hello'', objSize = 5, tStamp = 2, referenceCnt = 1\<rparr>],
            size_c = 5, LRU = 2\<rparr> \<le> MAX_CACHE_SIZE"
proof -
  have ok: "\<forall>x\<in>set [Lookup 4 ''u'', Admit ''u'' ''hello'' 5 AllocOk, Lookup 4 ''u'']. admit_size_ok x"
    by (simp add: MAX_OBJECT_SIZE_def)
  have run: "apply_ops [Lookup 4 ''u'', Admit ''u'' ''hello'' 5 AllocOk, Lookup 4 ''u''] init_web_cache
     = Inr \<lparr>start = [\<lparr>urlKey = ''u'', object = ''hello'', objSize = 5, tStamp = 2, referenceCnt = 1\<rparr>],
            size_c = 5, LRU = 2\<rparr>"
    by (simp add: cache_eval)
  from total_bytes_budget [OF ok run] run show ?thesis by simp
qed

subsection \<open>The clock\<close>

lemma evict_one_LRU: "evict_one c = Inr c' \<Longrightarrow> LRU c' = LRU c"
  by (auto simp: evict_one_def split: option.splits sum.splits if_splits)

lemma cache_eviction_LRU: "cache_eviction sz c = Inr c' \<Longrightarrow> LRU c' = LRU c"
proof (induction sz c rule: cache_eviction.induct)
  case (1 sz c)
  from "1.prems" obtain t where t: "c_add (size_c c) sz = Inr t"
    by (subst (asm) cache_eviction.simps) (auto split: sum.splits)
  show ?case
  proof (cases "t > MAX_CACHE_SIZE")
    case True
    with "1.prems" t obtain c1 where c1: "evict_one c = Inr c1"
      and rest: "cache_eviction sz c1 = Inr c'"
      by (subst (asm) cache_eviction.simps) (auto split: sum.splits)
    from "1.IH" [OF t True c1 rest] evict_one_LRU [OF c1] show ?thesis by simp
  next
    case False
    with "1.prems" t have "c' = c"
      by (subst (asm) cache_eviction.simps) auto
    then show ?thesis by simp
  qed
qed

lemma insert_into_cache_head:
  assumes "insert_into_cache w c = Inr c'"
  shows "start c' \<noteq> [] \<and> hd (start c') = w \<and> LRU c' = LRU c"
  using assms
  by (auto simp: insert_into_cache_def split: if_splits sum.splits dest: cache_eviction_LRU)

lemma add_to_cache_Inr:
  assumes "add_to_cache k b sz al c = Inr (r, c')"
  shows "(get_obj_with_key k (start c) \<noteq> None \<and> \<not> r \<and> c' = c) \<or>
         (get_obj_with_key k (start c) = None \<and> al = ObjNull \<and> r \<and> c' = c) \<or>
         (get_obj_with_key k (start c) = None \<and> al = AllocOk \<and> \<not> r \<and>
          0 \<le> sz \<and> sz \<le> int (length b) \<and>
          (\<exists>c1. insert_into_cache
                   \<lparr>urlKey = k, object = take (nat sz) b, objSize = sz, tStamp = LRU c,
                    referenceCnt = 1\<rparr> c = Inr c1 \<and>
                c' = c1\<lparr>size_c := size_c c1 + sz\<rparr>))"
  using assms
  by (cases al) (auto simp: add_to_cache_def split: option.splits if_splits sum.splits dest!: c_add_Inr)

lemma apply_op_clock:
  "apply_op x c = Inr c' \<Longrightarrow> LRU c' = LRU c + (if is_lookup x then 1 else 0)"
proof (cases x)
  case (Lookup fd k)
  assume "apply_op x c = Inr c'"
  with Lookup obtain hit out where "serve_cache fd k c = Inr (hit, out, c')"
    by (auto split: sum.splits)
  from serve_cache_Inr [OF this] Lookup show ?thesis by auto
next
  case (Admit k b sz al)
  assume "apply_op x c = Inr c'"
  with Admit obtain r where "add_to_cache k b sz al c = Inr (r, c')"
    by (auto split: sum.splits)
  from add_to_cache_Inr [OF this] Admit show ?thesis by (auto dest: insert_into_cache_head)
qed

lemma apply_ops_clock:
  "apply_ops xs c = Inr c' \<Longrightarrow> LRU c' = LRU c + int (length (filter is_lookup xs))"
proof (induction xs arbitrary: c)
  case Nil
  then show ?case by simp
next
  case (Cons x xs)
  from Cons.prems obtain c1 where c1: "apply_op x c = Inr c1" and r: "apply_ops xs c1 = Inr c'"
    by (auto split: sum.splits)
  from Cons.IH [OF r] apply_op_clock [OF c1] show ?case by simp
qed

text \<open>
  C8, as the code has it. A lookup that returns, hit or miss, raises the clock by
  exactly one and on a hit stamps the found entry with the new value. An admission that
  returns leaves the clock as it was; when it inserts, the new entry is the head of the
  list and carries the current clock value as its stamp. So over any run of lookups and
  admissions the clock grows by the number of lookups, and never decreases.
\<close>

theorem clock_steps:
  "(serve_cache fd key c = Inr (hit, out, c') \<longrightarrow>
      LRU c' = LRU c + 1 \<and>
      (\<forall>i. get_obj_with_key key (start c) = Some i \<longrightarrow> tStamp (start c' ! i) = LRU c')) \<and>
   (add_to_cache key buf sz al c = Inr (r, c'') \<longrightarrow>
      LRU c'' = LRU c \<and>
      (get_obj_with_key key (start c) = None \<and> al = AllocOk \<longrightarrow>
         start c'' \<noteq> [] \<and> urlKey (hd (start c'')) = key \<and> tStamp (hd (start c'')) = LRU c)) \<and>
   (apply_ops ops c = Inr d \<longrightarrow> LRU d = LRU c + int (length (filter is_lookup ops)) \<and> LRU c \<le> LRU d)"
proof -
  have 1: "LRU c' = LRU c + 1 \<and>
      (\<forall>i. get_obj_with_key key (start c) = Some i \<longrightarrow> tStamp (start c' ! i) = LRU c')"
    if "serve_cache fd key c = Inr (hit, out, c')"
    using serve_cache_Inr [OF that] by auto
  have 2: "LRU c'' = LRU c"
    if "add_to_cache key buf sz al c = Inr (r, c'')"
    using add_to_cache_Inr [OF that] by (auto dest: insert_into_cache_head)
  have 3: "start c'' \<noteq> [] \<and> urlKey (hd (start c'')) = key \<and> tStamp (hd (start c'')) = LRU c"
    if "add_to_cache key buf sz al c = Inr (r, c'')"
      and "get_obj_with_key key (start c) = None \<and> al = AllocOk"
    using add_to_cache_Inr [OF that(1)] that(2) by (auto dest!: insert_into_cache_head)
  have 4: "LRU d = LRU c + int (length (filter is_lookup ops)) \<and> LRU c \<le> LRU d"
    if "apply_ops ops c = Inr d"
    using apply_ops_clock [OF that] by simp
  from 1 2 3 4 show ?thesis by blast
qed

theorem clock_steps_witness:
  "serve_cache 4 ''u''
     \<lparr>start = [\<lparr>urlKey = ''u'', object = ''hello'', objSize = 5, tStamp = 1, referenceCnt = 1\<rparr>],
      size_c = 5, LRU = 2\<rparr>
   = Inr (True, [(4, ''hello'')],
     \<lparr>start = [\<lparr>urlKey = ''u'', object = ''hello'', objSize = 5, tStamp = 3, referenceCnt = 1\<rparr>],
      size_c = 5, LRU = 3\<rparr>) \<and>
   add_to_cache ''v'' ''abc'' 3 AllocOk
     \<lparr>start = [\<lparr>urlKey = ''u'', object = ''hello'', objSize = 5, tStamp = 1, referenceCnt = 1\<rparr>],
      size_c = 5, LRU = 2\<rparr>
   = Inr (False,
     \<lparr>start = [\<lparr>urlKey = ''v'', object = ''abc'', objSize = 3, tStamp = 2, referenceCnt = 1\<rparr>,
               \<lparr>urlKey = ''u'', object = ''hello'', objSize = 5, tStamp = 1, referenceCnt = 1\<rparr>],
      size_c = 8, LRU = 2\<rparr>) \<and>
   LRU \<lparr>start = [\<lparr>urlKey = ''u'', object = ''hello'', objSize = 5, tStamp = 3, referenceCnt = 1\<rparr>],
      size_c = 5, LRU = 3\<rparr> = 2 + 1 \<and>
   LRU \<lparr>start = [\<lparr>urlKey = ''v'', object = ''abc'', objSize = 3, tStamp = 2, referenceCnt = 1\<rparr>,
               \<lparr>urlKey = ''u'', object = ''hello'', objSize = 5, tStamp = 1, referenceCnt = 1\<rparr>],
      size_c = 8, LRU = 2\<rparr> = 2"
proof -
  let ?c = "\<lparr>start = [\<lparr>urlKey = ''u'', object = ''hello'', objSize = 5, tStamp = 1, referenceCnt = 1\<rparr>],
      size_c = 5, LRU = 2\<rparr>"
  have look: "serve_cache 4 ''u'' ?c
   = Inr (True, [(4, ''hello'')],
     \<lparr>start = [\<lparr>urlKey = ''u'', object = ''hello'', objSize = 5, tStamp = 3, referenceCnt = 1\<rparr>],
      size_c = 5, LRU = 3\<rparr>)"
    by (simp add: cache_eval)
  have admit: "add_to_cache ''v'' ''abc'' 3 AllocOk ?c
   = Inr (False,
     \<lparr>start = [\<lparr>urlKey = ''v'', object = ''abc'', objSize = 3, tStamp = 2, referenceCnt = 1\<rparr>,
               \<lparr>urlKey = ''u'', object = ''hello'', objSize = 5, tStamp = 1, referenceCnt = 1\<rparr>],
      size_c = 8, LRU = 2\<rparr>)"
    by (simp add: cache_eval)
  have none: "get_obj_with_key ''v'' (start ?c) = None \<and> AllocOk = AllocOk"
    by (simp add: cache_eval)
  from clock_steps [where fd = 4 and key = "''u''" and c = ?c and hit = True] look
    clock_steps [where key = "''v''" and c = ?c and buf = "''abc''" and sz = 3 and al = AllocOk
      and r = False] admit none
  show ?thesis by simp
qed

text \<open>
  The property as the specification states it fails for admissions: an admission into a
  cache whose clock is 7 inserts the entry and leaves the clock at 7, where the
  specification has it raised to 8.
\<close>

theorem admission_clock_counterexample:
  "add_to_cache ''u'' ''hello'' 5 AllocOk \<lparr>start = [], size_c = 0, LRU = 7\<rparr> =
     Inr (False, \<lparr>start = [\<lparr>urlKey = ''u'', object = ''hello'', objSize = 5, tStamp = 7, referenceCnt = 1\<rparr>],
                  size_c = 5, LRU = 7\<rparr>)"
  by (simp add: cache_eval)

subsection \<open>The order of eviction\<close>

lemma scan_min_spec:
  assumes "scan_min xs (length pre) m v = Some j"
    and "\<forall>x\<in>set pre. m \<le> tStamp x"
    and "\<And>k. v = Some k \<Longrightarrow>
           k < length pre \<and> tStamp (pre ! k) = m \<and> (\<forall>k'<k. m < tStamp (pre ! k'))"
  shows "j < length (pre @ xs) \<and>
         (\<forall>x\<in>set (pre @ xs). tStamp ((pre @ xs) ! j) \<le> tStamp x) \<and>
         (\<forall>k<j. tStamp ((pre @ xs) ! j) < tStamp ((pre @ xs) ! k))"
  using assms
proof (induction xs arbitrary: pre m v)
  case Nil
  from Nil.prems(1) have v: "v = Some j" by simp
  from Nil.prems(3) [OF v] Nil.prems(2) show ?case by auto
next
  case (Cons x xs)
  have len: "Suc (length pre) = length (pre @ [x])" by simp
  show ?case
  proof (cases "tStamp x < m")
    case True
    with Cons.prems(1) have run: "scan_min xs (length (pre @ [x])) (tStamp x) (Some (length pre)) = Some j"
      by simp
    have a: "\<forall>y\<in>set (pre @ [x]). tStamp x \<le> tStamp y"
      using True Cons.prems(2) by auto
    have b: "k < length (pre @ [x]) \<and> tStamp ((pre @ [x]) ! k) = tStamp x \<and>
             (\<forall>k'<k. tStamp x < tStamp ((pre @ [x]) ! k'))"
      if "Some (length pre) = Some k" for k
    proof -
      from that have k: "k = length pre" by simp
      have "tStamp x < tStamp (pre ! k')" if "k' < length pre" for k'
        using True Cons.prems(2) that by (metis less_le_trans nth_mem)
      then show ?thesis by (simp add: k nth_append)
    qed
    from Cons.IH [OF run a b] show ?thesis by simp
  next
    case False
    with Cons.prems(1) have run: "scan_min xs (length (pre @ [x])) m v = Some j"
      by simp
    have a: "\<forall>y\<in>set (pre @ [x]). m \<le> tStamp y"
      using False Cons.prems(2) by auto
    have b: "k < length (pre @ [x]) \<and> tStamp ((pre @ [x]) ! k) = m \<and>
             (\<forall>k'<k. m < tStamp ((pre @ [x]) ! k'))"
      if "v = Some k" for k
      using Cons.prems(3) [OF that] by (auto simp: nth_append)
    from Cons.IH [OF run a b] show ?thesis by simp
  qed
qed

lemma scan_min_first_least:
  assumes "scan_min xs 0 m None = Some j"
  shows "j < length xs \<and> (\<forall>x\<in>set xs. tStamp (xs ! j) \<le> tStamp x) \<and>
         (\<forall>k<j. tStamp (xs ! j) < tStamp (xs ! k))"
  using scan_min_spec [of xs "[]" m None j] assms by simp

lemma scan_min_None:
  "scan_min xs i m v = None \<Longrightarrow> v = None \<and> (\<forall>x\<in>set xs. m \<le> tStamp x)"
proof (induction xs arbitrary: i m v)
  case Nil
  then show ?case by simp
next
  case (Cons x xs)
  show ?case
  proof (cases "tStamp x < m")
    case True
    with Cons.prems have "scan_min xs (Suc i) (tStamp x) (Some i) = None" by simp
    from Cons.IH [OF this] show ?thesis by simp
  next
    case False
    with Cons.prems have "scan_min xs (Suc i) m v = None" by simp
    from Cons.IH [OF this] False show ?thesis by simp
  qed
qed

lemma evict_one_victim:
  assumes "evict_one c = Inr c'"
  shows "\<exists>i<length (start c).
           start c' = take i (start c) @ drop (Suc i) (start c) \<and>
           size_c c' = size_c c - objSize (start c ! i) \<and>
           (\<forall>x\<in>set (start c). tStamp (start c ! i) \<le> tStamp x) \<and>
           (\<forall>j<i. tStamp (start c ! i) < tStamp (start c ! j))"
proof -
  from assms obtain i where i: "scan_min (start c) 0 INT_MAX None = Some i"
    and c': "c' = c\<lparr>start := take i (start c) @ drop (Suc i) (start c),
                     size_c := size_c c - objSize (start c ! i)\<rparr>"
    by (auto simp: evict_one_def split: option.splits sum.splits if_splits dest!: c_sub_Inr)
  from scan_min_first_least [OF i] show ?thesis by (auto simp: c')
qed


lemma apply_ops_append:
  "apply_ops (xs @ ys) c = (case apply_ops xs c of Inl f \<Rightarrow> Inl f | Inr c' \<Rightarrow> apply_ops ys c')"
  by (induction xs arbitrary: c) (auto split: sum.splits)

lemma take_append_take: "take n (xs @ take n ys) = take n (xs @ ys)"
  by (simp add: min_def)

lemma capacity_bounds:
  assumes "0 < s" and "s \<le> MAX_OBJECT_SIZE"
  shows "s * (MAX_CACHE_SIZE div s) \<le> MAX_CACHE_SIZE"
    and "MAX_CACHE_SIZE < s * (MAX_CACHE_SIZE div s) + s"
    and "1 \<le> MAX_CACHE_SIZE div s"
proof -
  have eq: "MAX_CACHE_SIZE = s * (MAX_CACHE_SIZE div s) + MAX_CACHE_SIZE mod s"
    by simp
  have m: "0 \<le> MAX_CACHE_SIZE mod s" "MAX_CACHE_SIZE mod s < s"
    using assms(1) by simp_all
  from eq m show 1: "s * (MAX_CACHE_SIZE div s) \<le> MAX_CACHE_SIZE" by linarith
  from eq m show 2: "MAX_CACHE_SIZE < s * (MAX_CACHE_SIZE div s) + s" by linarith
  show "1 \<le> MAX_CACHE_SIZE div s"
  proof (rule ccontr)
    assume "\<not> 1 \<le> MAX_CACHE_SIZE div s"
    then have "MAX_CACHE_SIZE div s \<le> 0" by simp
    with assms(1) have "s * (MAX_CACHE_SIZE div s) \<le> 0"
      by (simp add: mult_le_0_iff)
    with 2 assms(2) show False by (simp add: MAX_CACHE_SIZE_def MAX_OBJECT_SIZE_def)
  qed
qed

lemma serve_cache_miss:
  assumes "key \<notin> urlKey ` set (start c)" and "0 \<le> LRU c" and "LRU c < INT_MAX"
  shows "serve_cache fd key c = Inr (False, [], c\<lparr>LRU := LRU c + 1\<rparr>)"
proof -
  from assms(1) have "get_obj_with_key key (start c) = None"
    by (simp add: get_obj_with_key_None)
  with assms(2,3) show ?thesis
    by (simp add: serve_cache_def c_add_def INT_MAX_def INT_MIN_def)
qed

lemma sorted_wrt_last_least:
  assumes "sorted_wrt (>) (map tStamp xs)" and "i < length xs"
    and "\<forall>x\<in>set xs. tStamp (xs ! i) \<le> tStamp x"
  shows "i = length xs - 1"
proof (rule ccontr)
  assume "i \<noteq> length xs - 1"
  with assms(2) have lt: "i < length xs - 1" by simp
  then have "length xs - 1 < length xs" by simp
  with assms(1) lt have "tStamp (xs ! i) > tStamp (xs ! (length xs - 1))"
    by (simp add: sorted_wrt_iff_nth_less)
  moreover have "xs ! (length xs - 1) \<in> set xs" using assms(2) by simp
  ultimately show False using assms(3) by fastforce
qed

lemma evict_one_last:
  assumes st: "lru_state s c" and ne: "start c \<noteq> []" and s: "0 < s" "s \<le> MAX_OBJECT_SIZE"
    and lim: "LRU c \<le> INT_MAX" and fresh: "\<forall>x\<in>set (start c). tStamp x < LRU c"
  shows "evict_one c = Inr (c\<lparr>start := butlast (start c), size_c := size_c c - s\<rparr>)"
proof -
  from ne obtain x where x: "x \<in> set (start c)" by (cases "start c") auto
  with fresh lim have "tStamp x < INT_MAX" by fastforce
  with x have "scan_min (start c) 0 INT_MAX None \<noteq> None"
    using scan_min_None [of "start c" 0 INT_MAX None] by fastforce
  then obtain i where i: "scan_min (start c) 0 INT_MAX None = Some i" by auto
  from scan_min_first_least [OF i] have il: "i < length (start c)"
    and least: "\<forall>x\<in>set (start c). tStamp (start c ! i) \<le> tStamp x" by simp_all
  from st have "sorted_wrt (>) (map tStamp (start c))" by (simp add: lru_state_def)
  from sorted_wrt_last_least [OF this il least] have "i = length (start c) - 1" .
  then have cut: "take i (start c) @ drop (Suc i) (start c) = butlast (start c)"
    by (simp add: butlast_conv_take)
  from il have mem: "start c ! i \<in> set (start c)" by simp
  with st have f: "referenceCnt (start c ! i) = 1" "objSize (start c ! i) = s"
    by (auto simp: lru_state_def)
  have "0 \<le> s * int (length (start c))" using s(1) by simp
  moreover have "s * int (length (start c)) \<le> s * (MAX_CACHE_SIZE div s)"
    using st s(1) by (simp add: lru_state_def mult_left_mono)
  ultimately have rng: "0 \<le> size_c c" "size_c c \<le> MAX_CACHE_SIZE"
    using st capacity_bounds(1) [OF s] by (simp_all add: lru_state_def)
  with s have "c_sub (size_c c) s = Inr (size_c c - s)"
    by (simp add: c_sub_def INT_MIN_def INT_MAX_def MAX_CACHE_SIZE_def MAX_OBJECT_SIZE_def)
  with i f cut show ?thesis
    by (simp add: evict_one_def c_sub_def INT_MIN_def INT_MAX_def)
qed


lemma c_add_in_range:
  "0 \<le> a \<Longrightarrow> a \<le> MAX_CACHE_SIZE \<Longrightarrow> 0 < b \<Longrightarrow> b \<le> MAX_OBJECT_SIZE \<Longrightarrow>
   c_add a b = Inr (a + b)"
  by (simp add: c_add_def INT_MIN_def INT_MAX_def MAX_CACHE_SIZE_def MAX_OBJECT_SIZE_def)

lemma lru_state_size_range:
  assumes "lru_state s c" and "0 < s" and "s \<le> MAX_OBJECT_SIZE"
  shows "0 \<le> size_c c \<and> size_c c \<le> s * (MAX_CACHE_SIZE div s) \<and> size_c c \<le> MAX_CACHE_SIZE"
proof -
  have "0 \<le> s * int (length (start c))" using assms(2) by simp
  moreover have "s * int (length (start c)) \<le> s * (MAX_CACHE_SIZE div s)"
    using assms(1,2) by (simp add: lru_state_def mult_left_mono)
  ultimately show ?thesis
    using assms(1) capacity_bounds(1) [OF assms(2,3)] by (simp add: lru_state_def)
qed

lemma cache_eviction_lru:
  assumes st: "lru_state s c" and s: "0 < s" "s \<le> MAX_OBJECT_SIZE"
    and lim: "LRU c \<le> INT_MAX" and fresh: "\<forall>x\<in>set (start c). tStamp x < LRU c"
  shows "cache_eviction s c =
           Inr (if int (length (start c)) = MAX_CACHE_SIZE div s
                then c\<lparr>start := butlast (start c), size_c := size_c c - s\<rparr> else c)"
proof -
  note cap = capacity_bounds [OF s]
  note rng = lru_state_size_range [OF st s]
  have sz: "size_c c = s * int (length (start c))" using st by (simp add: lru_state_def)
  have add: "c_add (size_c c) s = Inr (size_c c + s)"
    using rng s by (simp add: c_add_def INT_MIN_def INT_MAX_def MAX_CACHE_SIZE_def MAX_OBJECT_SIZE_def)
  show ?thesis
  proof (cases "int (length (start c)) = MAX_CACHE_SIZE div s")
    case True
    with cap(3) have ne: "start c \<noteq> []" by auto
    from True sz cap(2) have over: "size_c c + s > MAX_CACHE_SIZE" by simp
    let ?c1 = "c\<lparr>start := butlast (start c), size_c := size_c c - s\<rparr>"
    have ev: "evict_one c = Inr ?c1" by (rule evict_one_last [OF st ne s lim fresh])
    have add1: "c_add (size_c ?c1) s = Inr (size_c c)"
      using rng s by (simp add: c_add_def INT_MIN_def INT_MAX_def MAX_CACHE_SIZE_def MAX_OBJECT_SIZE_def)
    have stop: "cache_eviction s ?c1 = Inr ?c1"
      using add1 rng by (subst cache_eviction.simps) simp
    show ?thesis
      using add over ev stop True by (subst cache_eviction.simps) simp
  next
    case False
    with st have "int (length (start c)) + 1 \<le> MAX_CACHE_SIZE div s"
      by (simp add: lru_state_def)
    with s(1) have "s * (int (length (start c)) + 1) \<le> s * (MAX_CACHE_SIZE div s)"
      by (simp only: mult_left_mono)
    with sz cap(1) have "\<not> size_c c + s > MAX_CACHE_SIZE"
      by (simp add: algebra_simps)
    with add False show ?thesis by (subst cache_eviction.simps) simp
  qed
qed

lemma add_to_cache_lru:
  assumes st: "lru_state s c" and s: "0 < s" "s \<le> MAX_OBJECT_SIZE"
    and lim: "LRU c \<le> INT_MAX" and fresh: "\<forall>x\<in>set (start c). tStamp x < LRU c"
    and new: "k \<notin> urlKey ` set (start c)" and buf: "s \<le> int (length b)"
  shows "\<exists>c'. add_to_cache k b s AllocOk c = Inr (False, c') \<and> lru_state s c' \<and>
              LRU c' = LRU c \<and>
              map urlKey (start c') = take (nat (MAX_CACHE_SIZE div s)) (k # map urlKey (start c))"
proof -
  note cap = capacity_bounds [OF s]
  note rng = lru_state_size_range [OF st s]
  define K where "K = nat (MAX_CACHE_SIZE div s)"
  define ys where "ys = take (K - 1) (start c)"
  define w where "w = \<lparr>urlKey = k, object = take (nat s) b, objSize = s, tStamp = LRU c,
                        referenceCnt = 1\<rparr>"
  have K: "int K = MAX_CACHE_SIZE div s" "1 \<le> K" using cap(3) by (simp_all add: K_def)
  have len: "length (start c) \<le> K" using st K by (simp add: lru_state_def)
  have sz: "size_c c = s * int (length (start c))" using st by (simp add: lru_state_def)
  have none: "get_obj_with_key k (start c) = None" using new by (simp add: get_obj_with_key_None)
  have ins: "insert_into_cache w c = Inr (c\<lparr>start := w # ys, size_c := s * int (length ys)\<rparr>)"
  proof (cases "start c = []")
    case True
    then show ?thesis using sz by (simp add: insert_into_cache_def ys_def)
  next
    case ne: False
    have add: "c_add (size_c c) s = Inr (size_c c + s)"
      using rng s by (simp add: c_add_def INT_MIN_def INT_MAX_def MAX_CACHE_SIZE_def MAX_OBJECT_SIZE_def)
    show ?thesis
    proof (cases "int (length (start c)) = MAX_CACHE_SIZE div s")
      case True
      then have full: "length (start c) = K" by (simp add: K_def)
      then have ys: "ys = butlast (start c)" by (simp add: ys_def butlast_conv_take)
      from True sz cap(2) have over: "size_c c + s \<ge> MAX_CACHE_SIZE" by simp
      have "s * int (length ys) = size_c c - s"
        using ne by (simp add: ys sz algebra_simps of_nat_diff Suc_leI)
      then show ?thesis
        using ne add over cache_eviction_lru [OF st s lim fresh] True
        by (simp add: insert_into_cache_def w_def ys)
    next
      case False
      with len K have "length (start c) \<le> K - 1" by simp
      then have ys: "ys = start c" by (simp add: ys_def)
      show ?thesis
        using ne add cache_eviction_lru [OF st s lim fresh] False
        by (simp add: insert_into_cache_def w_def ys sz)
    qed
  qed
  let ?c' = "c\<lparr>start := w # ys, size_c := s * int (length ys) + s\<rparr>"
  have sub: "set ys \<subseteq> set (start c)" by (simp add: ys_def set_take_subset)
  have leny: "length ys \<le> K - 1" by (simp add: ys_def)
  have "s * int (length ys) \<le> s * int (length (start c))"
    using s(1) by (simp add: ys_def mult_left_mono)
  moreover have "0 \<le> s * int (length ys)" using s(1) by simp
  ultimately have "0 \<le> s * int (length ys)" "s * int (length ys) \<le> MAX_CACHE_SIZE"
    using rng sz by linarith+
  then have add2: "c_add (s * int (length ys)) s = Inr (s * int (length ys) + s)"
    using s by (rule c_add_in_range)
  have run: "add_to_cache k b s AllocOk c = Inr (False, ?c')"
    using none buf s(1) ins add2 by (simp add: add_to_cache_def w_def)
  have sorted: "sorted_wrt (>) (map tStamp (w # ys))"
  proof -
    from st have "sorted_wrt (>) (map tStamp (start c))" by (simp add: lru_state_def)
    then have "sorted_wrt (>) (take (K - 1) (map tStamp (start c)))" by (rule sorted_wrt_take)
    then have "sorted_wrt (>) (map tStamp ys)" by (simp only: ys_def take_map)
    moreover have "\<forall>y\<in>set ys. tStamp y < tStamp w"
      using fresh sub by (auto simp: w_def)
    ultimately show ?thesis by simp
  qed
  have fields: "\<forall>x\<in>set (w # ys). tStamp x \<le> LRU c \<and> referenceCnt x = 1 \<and> objSize x = s"
    using st sub by (auto simp: w_def lru_state_def)
  have "int (length (w # ys)) \<le> MAX_CACHE_SIZE div s"
    using leny K by simp
  moreover have "s * int (length ys) + s = s * int (length (w # ys))"
    by (simp add: algebra_simps)
  moreover have "0 \<le> LRU c" using st by (simp add: lru_state_def)
  ultimately have st': "lru_state s ?c'"
    using sorted fields by (simp add: lru_state_def)
  have "map urlKey (w # ys) = take K (k # map urlKey (start c))"
  proof -
    from K(2) obtain n where n: "K = Suc n" by (cases K) auto
    then show ?thesis by (simp add: ys_def w_def take_map)
  qed
  with run st' show ?thesis by (auto simp: K_def)
qed


lemma lookup_then_admit_Cons:
  "lookup_then_admit fd s ((k, b) # kbs) =
     Lookup fd k # Admit k b s AllocOk # lookup_then_admit fd s kbs"
  by (simp add: lookup_then_admit_def)

lemma lookup_then_admit_run:
  assumes "lru_state s c" and "0 < s" and "s \<le> MAX_OBJECT_SIZE"
    and "distinct (map fst kbs)"
    and "fst ` set kbs \<inter> urlKey ` set (start c) = {}"
    and "LRU c + int (length kbs) \<le> INT_MAX"
    and "\<forall>kb\<in>set kbs. s \<le> int (length (snd kb))"
  shows "\<exists>c'. apply_ops (lookup_then_admit fd s kbs) c = Inr c' \<and> lru_state s c' \<and>
              LRU c' = LRU c + int (length kbs) \<and>
              map urlKey (start c') =
                take (nat (MAX_CACHE_SIZE div s)) (rev (map fst kbs) @ map urlKey (start c))"
  using assms
proof (induction kbs arbitrary: c)
  case Nil
  then have "int (length (start c)) \<le> MAX_CACHE_SIZE div s" by (simp add: lru_state_def)
  then have "length (map urlKey (start c)) \<le> nat (MAX_CACHE_SIZE div s)" by simp
  with Nil show ?case by (simp add: lookup_then_admit_def)
next
  case (Cons kb kbs)
  obtain k b where kb: "kb = (k, b)" by (cases kb)
  let ?c0 = "c\<lparr>LRU := LRU c + 1\<rparr>"
  from Cons.prems(5) have new: "k \<notin> urlKey ` set (start c)" by (auto simp: kb)
  from Cons.prems(1) have pos: "0 \<le> LRU c" by (simp add: lru_state_def)
  from Cons.prems(6) have lt: "LRU c < INT_MAX" by simp
  have miss: "serve_cache fd k c = Inr (False, [], ?c0)"
    by (rule serve_cache_miss [OF new pos lt])
  have st0: "lru_state s ?c0"
    using Cons.prems(1) by (fastforce simp: lru_state_def)
  have fresh: "\<forall>x\<in>set (start ?c0). tStamp x < LRU ?c0"
    using Cons.prems(1) by (fastforce simp: lru_state_def)
  have lim: "LRU ?c0 \<le> INT_MAX" using lt by simp
  have buf: "s \<le> int (length b)" using Cons.prems(7) by (simp add: kb)
  from add_to_cache_lru [OF st0 Cons.prems(2,3) lim fresh _ buf, of k] new
  obtain c1 where admit: "add_to_cache k b s AllocOk ?c0 = Inr (False, c1)"
    and st1: "lru_state s c1" and l1: "LRU c1 = LRU c + 1"
    and keys1: "map urlKey (start c1) = take (nat (MAX_CACHE_SIZE div s)) (k # map urlKey (start c))"
    by auto
  have "set (map urlKey (start c1)) \<subseteq> insert k (urlKey ` set (start c))"
    using set_take_subset [of "nat (MAX_CACHE_SIZE div s)" "k # map urlKey (start c)"]
    by (simp add: keys1)
  then have sub: "urlKey ` set (start c1) \<subseteq> insert k (urlKey ` set (start c))" by simp
  have disj: "fst ` set kbs \<inter> urlKey ` set (start c1) = {}"
  proof -
    have "k \<notin> fst ` set kbs" using Cons.prems(4) by (simp add: kb)
    moreover have "fst ` set kbs \<inter> urlKey ` set (start c) = {}"
      using Cons.prems(5) by auto
    ultimately show ?thesis using sub by blast
  qed
  have d: "distinct (map fst kbs)" using Cons.prems(4) by simp
  have lim1: "LRU c1 + int (length kbs) \<le> INT_MAX" using Cons.prems(6) l1 by simp
  have bufs: "\<forall>kb\<in>set kbs. s \<le> int (length (snd kb))" using Cons.prems(7) by simp
  from Cons.IH [OF st1 Cons.prems(2,3) d disj lim1 bufs]
  obtain c' where run: "apply_ops (lookup_then_admit fd s kbs) c1 = Inr c'"
    and st': "lru_state s c'" and l': "LRU c' = LRU c1 + int (length kbs)"
    and keys': "map urlKey (start c') =
        take (nat (MAX_CACHE_SIZE div s)) (rev (map fst kbs) @ map urlKey (start c1))"
    by auto
  have "apply_ops (lookup_then_admit fd s (kb # kbs)) c = Inr c'"
    using miss admit run by (simp add: kb lookup_then_admit_Cons)
  moreover have "map urlKey (start c') =
      take (nat (MAX_CACHE_SIZE div s)) (rev (map fst (kb # kbs)) @ map urlKey (start c))"
    by (simp only: keys' keys1 take_append_take) (simp add: kb)
  ultimately show ?case using st' l' l1 by auto
qed

lemma lru_state_init: "0 < s \<Longrightarrow> s \<le> MAX_OBJECT_SIZE \<Longrightarrow> lru_state s init_web_cache"
  using capacity_bounds(3) [of s] by (simp add: lru_state_def init_web_cache_def)

text \<open>
  C3, as the code has it. One pass of eviction removes an entry whose stamp is the
  smallest in the list, and among entries with that stamp the one nearest the head.
  When each admission is preceded by a lookup of its URL, as in the proxy, so that the
  clock advances between admissions, then for admissions of distinct URLs, each of the
  same size \<open>s\<close> in \<open>1..MAX_OBJECT_SIZE\<close>, run from the empty cache, the resident
  entries are exactly the last \<open>MAX_CACHE_SIZE div s\<close> admissions, newest first.
\<close>

theorem lru_eviction_order:
  "(evict_one c = Inr c' \<longrightarrow>
      (\<exists>i<length (start c).
          start c' = take i (start c) @ drop (Suc i) (start c) \<and>
          (\<forall>x\<in>set (start c). tStamp (start c ! i) \<le> tStamp x) \<and>
          (\<forall>j<i. tStamp (start c ! i) < tStamp (start c ! j)))) \<and>
   (distinct (map fst kbs) \<and> 0 < s \<and> s \<le> MAX_OBJECT_SIZE \<and>
    (\<forall>kb\<in>set kbs. s \<le> int (length (snd kb))) \<and> int (length kbs) \<le> INT_MAX \<longrightarrow>
      (\<exists>d. apply_ops (lookup_then_admit fd s kbs) init_web_cache = Inr d \<and>
           map urlKey (start d) = take (nat (MAX_CACHE_SIZE div s)) (rev (map fst kbs))))"
proof -
  have 1: "\<exists>i<length (start c).
          start c' = take i (start c) @ drop (Suc i) (start c) \<and>
          (\<forall>x\<in>set (start c). tStamp (start c ! i) \<le> tStamp x) \<and>
          (\<forall>j<i. tStamp (start c ! i) < tStamp (start c ! j))"
    if "evict_one c = Inr c'"
    using evict_one_victim [OF that] by blast
  have 2: "\<exists>d. apply_ops (lookup_then_admit fd s kbs) init_web_cache = Inr d \<and>
           map urlKey (start d) = take (nat (MAX_CACHE_SIZE div s)) (rev (map fst kbs))"
    if h: "distinct (map fst kbs) \<and> 0 < s \<and> s \<le> MAX_OBJECT_SIZE \<and>
    (\<forall>kb\<in>set kbs. s \<le> int (length (snd kb))) \<and> int (length kbs) \<le> INT_MAX"
  proof -
    from h have st: "lru_state s init_web_cache" by (simp add: lru_state_init)
    have e: "fst ` set kbs \<inter> urlKey ` set (start init_web_cache) = {}"
      by (simp add: init_web_cache_def)
    have l: "LRU init_web_cache + int (length kbs) \<le> INT_MAX"
      using h by (simp add: init_web_cache_def)
    from h have a: "0 < s" "s \<le> MAX_OBJECT_SIZE" "distinct (map fst kbs)"
      "\<forall>kb\<in>set kbs. s \<le> int (length (snd kb))" by simp_all
    from lookup_then_admit_run [OF st a(1,2,3) e l a(4), of fd]
    show ?thesis by (auto simp: init_web_cache_def)
  qed
  from 1 2 show ?thesis by blast
qed


theorem lru_eviction_order_witness:
  "evict_one \<lparr>start = [\<lparr>urlKey = ''a'', object = ''xyz'', objSize = 3, tStamp = 2, referenceCnt = 1\<rparr>,
               \<lparr>urlKey = ''u'', object = ''hello'', objSize = 5, tStamp = 1, referenceCnt = 1\<rparr>],
      size_c = 8, LRU = 2\<rparr> =
   Inr \<lparr>start = [\<lparr>urlKey = ''a'', object = ''xyz'', objSize = 3, tStamp = 2, referenceCnt = 1\<rparr>],
      size_c = 3, LRU = 2\<rparr> \<and>
   (\<exists>d. apply_ops (lookup_then_admit 4 102400 (map (\<lambda>k. (k, full_block)) eleven_urls))
           init_web_cache = Inr d \<and>
        map urlKey (start d) =
          [''k11'', ''k10'', ''k09'', ''k08'', ''k07'', ''k06'', ''k05'', ''k04'', ''k03'', ''k02''])"
proof -
  let ?kbs = "map (\<lambda>k. (k, full_block)) eleven_urls"
  have ev: "evict_one \<lparr>start = [\<lparr>urlKey = ''a'', object = ''xyz'', objSize = 3, tStamp = 2, referenceCnt = 1\<rparr>,
               \<lparr>urlKey = ''u'', object = ''hello'', objSize = 5, tStamp = 1, referenceCnt = 1\<rparr>],
      size_c = 8, LRU = 2\<rparr> =
   Inr \<lparr>start = [\<lparr>urlKey = ''a'', object = ''xyz'', objSize = 3, tStamp = 2, referenceCnt = 1\<rparr>],
      size_c = 3, LRU = 2\<rparr>"
    by (simp add: cache_eval evict_one_def)
  have hyp: "distinct (map fst ?kbs) \<and> (0::int) < 102400 \<and> 102400 \<le> MAX_OBJECT_SIZE \<and>
      (\<forall>kb\<in>set ?kbs. 102400 \<le> int (length (snd kb))) \<and> int (length ?kbs) \<le> INT_MAX"
    by (simp add: eleven_urls_def full_block_def MAX_OBJECT_SIZE_def INT_MAX_def)
  from lru_eviction_order [where s = 102400 and fd = 4 and kbs = ?kbs] hyp
  have "\<exists>d. apply_ops (lookup_then_admit 4 102400 ?kbs) init_web_cache = Inr d \<and>
        map urlKey (start d) = take (nat (MAX_CACHE_SIZE div 102400)) (rev (map fst ?kbs))"
    by blast
  moreover have "take (nat (MAX_CACHE_SIZE div 102400)) (rev (map fst ?kbs)) =
      [''k11'', ''k10'', ''k09'', ''k08'', ''k07'', ''k06'', ''k05'', ''k04'', ''k03'', ''k02'']"
    by (simp add: eleven_urls_def MAX_CACHE_SIZE_def)
  ultimately show ?thesis using ev by simp
qed

text \<open>
  The property as the specification states it fails when nothing advances the clock
  between admissions: every entry then carries the same stamp and the scan, which keeps
  the first entry it meets among equals, evicts the head of the list, the newest entry.
  Eleven admissions of 100 KiB each leave the first nine and the eleventh resident; the
  tenth is evicted.
\<close>

theorem admissions_alone_counterexample:
  "apply_ops (map (\<lambda>k. Admit k full_block 102400 AllocOk) eleven_urls) init_web_cache =
   Inr \<lparr>start = map (\<lambda>k. \<lparr>urlKey = k, object = full_block, objSize = 102400, tStamp = 0,
                           referenceCnt = 1\<rparr>)
                  [''k11'', ''k09'', ''k08'', ''k07'', ''k06'', ''k05'', ''k04'', ''k03'', ''k02'',
                   ''k01''],
        size_c = 1024000, LRU = 0\<rparr>"
  by (simp add: cache_eval evict_one_def cache_eviction.simps eleven_urls_def full_block_def)

subsection \<open>Runs that return\<close>

lemma sound_state_size: "sound_state c \<Longrightarrow> 0 \<le> size_c c \<and> size_c c \<le> MAX_CACHE_SIZE"
proof -
  assume s: "sound_state c"
  then have "\<forall>x\<in>set (start c). 0 \<le> objSize x" by (simp add: sound_state_def)
  then have "0 \<le> sum_list (map objSize (start c))" by (intro sum_list_nonneg) auto
  with s show ?thesis by (simp add: sound_state_def budget_inv_def)
qed

lemma evict_one_sound:
  assumes s: "sound_state c" and ne: "start c \<noteq> []" and lim: "LRU c < INT_MAX"
  shows "\<exists>c'. evict_one c = Inr c' \<and> sound_state c' \<and> LRU c' = LRU c"
proof -
  from ne obtain x where x: "x \<in> set (start c)" by (cases "start c") auto
  with s lim have "tStamp x < INT_MAX" by (fastforce simp: sound_state_def)
  with x have "scan_min (start c) 0 INT_MAX None \<noteq> None"
    using scan_min_None [of "start c" 0 INT_MAX None] by fastforce
  then obtain i where i: "scan_min (start c) 0 INT_MAX None = Some i" by auto
  then have il: "i < length (start c)" by (rule scan_min_in_range)
  then have mem: "start c ! i \<in> set (start c)" by simp
  with s have f: "referenceCnt (start c ! i) = 1" "0 \<le> objSize (start c ! i)"
    "objSize (start c ! i) \<le> MAX_OBJECT_SIZE"
    by (auto simp: sound_state_def)
  note rng = sound_state_size [OF s]
  let ?c' = "c\<lparr>start := take i (start c) @ drop (Suc i) (start c),
               size_c := size_c c - objSize (start c ! i)\<rparr>"
  have sub: "c_sub (size_c c) (objSize (start c ! i)) = Inr (size_c c - objSize (start c ! i))"
    using rng f by (simp add: c_sub_def INT_MIN_def INT_MAX_def MAX_CACHE_SIZE_def MAX_OBJECT_SIZE_def)
  have ev: "evict_one c = Inr ?c'"
    using i f sub by (simp add: evict_one_def c_sub_def INT_MIN_def INT_MAX_def)
  have "set (take i (start c) @ drop (Suc i) (start c)) \<subseteq> set (start c)"
    using set_take_subset [of i "start c"] set_drop_subset [of "Suc i" "start c"] by auto
  moreover have "budget_inv ?c'"
  proof -
    have "sum_list (map objSize (take i (start c) @ drop (Suc i) (start c))) =
        size_c c - objSize (start c ! i)"
      using s il sum_list_remove_nth [of i "start c" objSize]
      by (simp add: sound_state_def budget_inv_def)
    moreover have "size_c c - objSize (start c ! i) \<le> MAX_CACHE_SIZE"
      using rng f(2) by simp
    ultimately show ?thesis by (simp add: budget_inv_def)
  qed
  ultimately have "sound_state ?c'"
    using s by (auto simp: sound_state_def)
  with ev show ?thesis by auto
qed

lemma cache_eviction_sound:
  "sound_state c \<Longrightarrow> 0 < sz \<Longrightarrow> sz \<le> MAX_OBJECT_SIZE \<Longrightarrow> LRU c < INT_MAX \<Longrightarrow>
   \<exists>c'. cache_eviction sz c = Inr c' \<and> sound_state c' \<and> LRU c' = LRU c \<and>
        size_c c' + sz \<le> MAX_CACHE_SIZE"
proof (induction sz c rule: cache_eviction.induct)
  case (1 sz c)
  note rng = sound_state_size [OF "1.prems"(1)]
  have add: "c_add (size_c c) sz = Inr (size_c c + sz)"
    using rng "1.prems"(2,3) by (simp add: c_add_in_range)
  show ?case
  proof (cases "size_c c + sz > MAX_CACHE_SIZE")
    case False
    with add "1.prems"(1) show ?thesis by (subst cache_eviction.simps) simp
  next
    case True
    with "1.prems"(3) have "0 < size_c c"
      by (simp add: MAX_CACHE_SIZE_def MAX_OBJECT_SIZE_def)
    with "1.prems"(1) have ne: "start c \<noteq> []"
      by (auto simp: sound_state_def budget_inv_def)
    from evict_one_sound [OF "1.prems"(1) ne "1.prems"(4)]
    obtain c1 where c1: "evict_one c = Inr c1" and s1: "sound_state c1" and l1: "LRU c1 = LRU c"
      by auto
    from "1.IH" [OF add True c1 s1 "1.prems"(2,3)] l1 "1.prems"(4)
    obtain c' where "cache_eviction sz c1 = Inr c'" "sound_state c'" "LRU c' = LRU c"
      "size_c c' + sz \<le> MAX_CACHE_SIZE" by auto
    with add True c1 show ?thesis by (subst cache_eviction.simps) simp
  qed
qed

lemma add_to_cache_sound:
  assumes s: "sound_state c" and ok: "op_runs (Admit k b sz al)" and lim: "LRU c < INT_MAX"
  shows "\<exists>r c'. add_to_cache k b sz al c = Inr (r, c') \<and> sound_state c' \<and> LRU c' = LRU c"
proof (cases "get_obj_with_key k (start c)")
  case (Some i)
  then have "add_to_cache k b sz al c = Inr (False, c)" by (simp add: add_to_cache_def)
  with s show ?thesis by (intro exI [of _ False] exI [of _ c]) simp
next
  case None
  from ok have sz: "0 < sz" "sz \<le> MAX_OBJECT_SIZE" "sz \<le> int (length b)"
    and al: "al = AllocOk \<or> al = ObjNull" by auto
  show ?thesis
  proof (cases "al = ObjNull")
    case True
    with None have "add_to_cache k b sz al c = Inr (True, c)" by (simp add: add_to_cache_def)
    with s show ?thesis by (intro exI [of _ True] exI [of _ c]) simp
  next
    case False
    with al have al: "al = AllocOk" by simp
    let ?w = "\<lparr>urlKey = k, object = take (nat sz) b, objSize = sz, tStamp = LRU c,
               referenceCnt = 1\<rparr>"
    note rng = sound_state_size [OF s]
    have "\<exists>c1. insert_into_cache ?w c = Inr (c1\<lparr>start := ?w # start c1\<rparr>) \<and> sound_state c1 \<and>
            LRU c1 = LRU c \<and> size_c c1 + sz \<le> MAX_CACHE_SIZE"
    proof (cases "start c = []")
      case True
      with s have "size_c c = 0" by (simp add: sound_state_def budget_inv_def)
      with True s sz show ?thesis
        by (auto simp: insert_into_cache_def MAX_CACHE_SIZE_def MAX_OBJECT_SIZE_def
            intro!: exI [of _ c])
    next
      case ne: False
      have add: "c_add (size_c c) sz = Inr (size_c c + sz)"
        using rng sz by (simp add: c_add_in_range)
      show ?thesis
      proof (cases "size_c c + sz \<ge> MAX_CACHE_SIZE")
        case True
        from cache_eviction_sound [OF s sz(1,2) lim]
        obtain c1 where "cache_eviction sz c = Inr c1" "sound_state c1" "LRU c1 = LRU c"
          "size_c c1 + sz \<le> MAX_CACHE_SIZE" by auto
        with ne add True show ?thesis by (auto simp: insert_into_cache_def)
      next
        case False
        with ne add s show ?thesis
          by (auto simp: insert_into_cache_def intro!: exI [of _ c])
      qed
    qed
    then obtain c1 where ins: "insert_into_cache ?w c = Inr (c1\<lparr>start := ?w # start c1\<rparr>)"
      and s1: "sound_state c1" and l1: "LRU c1 = LRU c"
      and fit: "size_c c1 + sz \<le> MAX_CACHE_SIZE" by auto
    note rng1 = sound_state_size [OF s1]
    have add1: "c_add (size_c c1) sz = Inr (size_c c1 + sz)"
      using rng1 sz by (simp add: c_add_in_range)
    let ?c' = "c1\<lparr>start := ?w # start c1, size_c := size_c c1 + sz\<rparr>"
    have run: "add_to_cache k b sz al c = Inr (False, ?c')"
      using None al sz ins add1 by (simp add: add_to_cache_def)
    have "sound_state ?c'"
      using s1 l1 sz fit s by (auto simp: sound_state_def budget_inv_def)
    with run l1 show ?thesis by auto
  qed
qed

lemma serve_cache_sound:
  assumes s: "sound_state c" and lim: "LRU c < INT_MAX"
  shows "\<exists>hit out c'. serve_cache fd k c = Inr (hit, out, c') \<and> sound_state c' \<and>
           LRU c' = LRU c + 1"
proof -
  from s have pos: "0 \<le> LRU c" by (simp add: sound_state_def)
  with lim have add: "c_add (LRU c) 1 = Inr (LRU c + 1)"
    by (simp add: c_add_def INT_MIN_def INT_MAX_def)
  show ?thesis
  proof (cases "get_obj_with_key k (start c)")
    case None
    with add have "serve_cache fd k c = Inr (False, [], c\<lparr>LRU := LRU c + 1\<rparr>)"
      by (simp add: serve_cache_def)
    moreover have "sound_state (c\<lparr>LRU := LRU c + 1\<rparr>)"
      using s by (fastforce simp: sound_state_def budget_inv_def)
    ultimately show ?thesis by auto
  next
    case (Some i)
    then have il: "i < length (start c)" by (simp add: get_obj_with_key_Some)
    then have "start c ! i \<in> set (start c)" by simp
    with s have f: "referenceCnt (start c ! i) = 1" "0 \<le> objSize (start c ! i)"
      "objSize (start c ! i) \<le> MAX_OBJECT_SIZE" by (auto simp: sound_state_def)
    let ?e = "(start c ! i)\<lparr>tStamp := LRU c + 1, referenceCnt := 1\<rparr>"
    let ?c' = "c\<lparr>LRU := LRU c + 1, start := (start c)[i := ?e]\<rparr>"
    have run: "serve_cache fd k c =
        Inr (True, [(fd, take (nat (objSize (start c ! i))) (object (start c ! i)))], ?c')"
      using add Some f by (simp add: serve_cache_def c_add_def c_sub_def INT_MIN_def INT_MAX_def)
    have sizes: "map objSize ((start c)[i := ?e]) = map objSize (start c)"
      using il by (simp add: map_update list_update_same_conv)
    have "\<forall>x\<in>set ((start c)[i := ?e]). referenceCnt x = 1 \<and> 0 \<le> objSize x \<and>
            objSize x \<le> MAX_OBJECT_SIZE \<and> tStamp x \<le> LRU c + 1"
    proof
      fix x assume "x \<in> set ((start c)[i := ?e])"
      then have "x = ?e \<or> x \<in> set (start c)"
        using set_update_subset_insert [of "start c" i ?e] by auto
      with s f show "referenceCnt x = 1 \<and> 0 \<le> objSize x \<and>
            objSize x \<le> MAX_OBJECT_SIZE \<and> tStamp x \<le> LRU c + 1"
        by (fastforce simp: sound_state_def)
    qed
    with s sizes pos have "sound_state ?c'" by (simp add: sound_state_def budget_inv_def)
    with run show ?thesis by auto
  qed
qed

lemma apply_ops_sound:
  "sound_state c \<Longrightarrow> \<forall>x\<in>set ops. op_runs x \<Longrightarrow>
   LRU c + int (length (filter is_lookup ops)) < INT_MAX \<Longrightarrow>
   \<exists>c'. apply_ops ops c = Inr c' \<and> sound_state c'"
proof (induction ops arbitrary: c)
  case Nil
  then show ?case by simp
next
  case (Cons x ops)
  have "\<exists>c1. apply_op x c = Inr c1 \<and> sound_state c1 \<and>
          LRU c1 = LRU c + (if is_lookup x then 1 else 0)"
  proof (cases x)
    case (Lookup fd k)
    from Cons.prems(3) Lookup have "LRU c < INT_MAX" by simp
    from serve_cache_sound [OF Cons.prems(1) this, of fd k] Lookup show ?thesis by auto
  next
    case (Admit k b sz al)
    from Cons.prems(3) have lim: "LRU c < INT_MAX" by simp
    from Cons.prems(2) Admit have "op_runs (Admit k b sz al)" by simp
    from add_to_cache_sound [OF Cons.prems(1) this lim] Admit show ?thesis by auto
  qed
  then obtain c1 where c1: "apply_op x c = Inr c1" and s1: "sound_state c1"
    and l1: "LRU c1 = LRU c + (if is_lookup x then 1 else 0)" by auto
  have "LRU c1 + int (length (filter is_lookup ops)) < INT_MAX"
    using Cons.prems(3) l1 by (simp split: if_splits)
  from Cons.IH [OF s1 _ this] Cons.prems(2) c1 show ?case by simp
qed

text \<open>
  Every sequence of such calls, run from the empty cache, returns, as long as the clock
  stays below \<open>INT_MAX\<close>: no spin without end, no read of an unassigned victim and no
  overflow.
\<close>

theorem cache_operations_return:
  assumes "\<forall>x\<in>set ops. op_runs x" and "int (length (filter is_lookup ops)) < INT_MAX"
  shows "\<exists>c. apply_ops ops init_web_cache = Inr c"
proof -
  have "sound_state init_web_cache"
    by (simp add: sound_state_def budget_inv_def init_web_cache_def MAX_CACHE_SIZE_def)
  from apply_ops_sound [OF this assms(1)] assms(2) show ?thesis
    by (auto simp: init_web_cache_def)
qed


theorem cache_operations_return_witness:
  "\<exists>c. apply_ops [Lookup 4 ''u'', Admit ''u'' ''hello'' 5 AllocOk, Lookup 4 ''u''] init_web_cache
         = Inr c"
proof -
  have ok: "\<forall>x\<in>set [Lookup 4 ''u'', Admit ''u'' ''hello'' 5 AllocOk, Lookup 4 ''u'']. op_runs x"
    by (simp add: MAX_OBJECT_SIZE_def)
  have n: "int (length (filter is_lookup
              [Lookup 4 ''u'', Admit ''u'' ''hello'' 5 AllocOk, Lookup 4 ''u''])) < INT_MAX"
    by (simp add: INT_MAX_def)
  from cache_operations_return [OF ok n] show ?thesis .
qed

subsection \<open>The value returned by an admission\<close>

text \<open>
  C1. The header says the result tells whether the object was added without error.
  The code returns \<open>false\<close> from the path that inserts the entry, \<open>false\<close> again when
  the key is already present and nothing is inserted, and \<open>true\<close> when the first
  allocation fails (the cache is then unchanged). So \<open>true\<close> is never the answer of a
  call that inserted.
\<close>

theorem add_to_cache_result_inverted:
  "add_to_cache ''u'' ''hello'' 5 AllocOk init_web_cache =
     Inr (False, \<lparr>start = [\<lparr>urlKey = ''u'', object = ''hello'', objSize = 5, tStamp = 0, referenceCnt = 1\<rparr>],
                  size_c = 5, LRU = 0\<rparr>) \<and>
   add_to_cache ''u'' ''world'' 5 AllocOk
     \<lparr>start = [\<lparr>urlKey = ''u'', object = ''hello'', objSize = 5, tStamp = 0, referenceCnt = 1\<rparr>],
      size_c = 5, LRU = 0\<rparr> =
     Inr (False, \<lparr>start = [\<lparr>urlKey = ''u'', object = ''hello'', objSize = 5, tStamp = 0, referenceCnt = 1\<rparr>],
                  size_c = 5, LRU = 0\<rparr>) \<and>
   add_to_cache ''u'' ''hello'' 5 ObjNull init_web_cache = Inr (True, init_web_cache)"
  by (simp add: cache_eval)

section \<open>Properties of the pipeline\<close>

text \<open>The equations that evaluate a run of the pipeline on concrete arguments.\<close>

lemmas pipeline_eval = threadRoutine_def read_request_def read_requestline_def rio_readlineb_def
  sscanf_request_def scan_token_def isspace_def CRLF_def end_of_headers_def add_own_headers_def
  sprintf_buf_def strncat_def header_user_agent_def fetch_from_origin_def buffer_image_def
  cleanup_def clienterror_def error_body_def error_headers_def example_parser_def
  example_world_def cache_eval




lemma clienterror_events:
  "e \<in> set (clienterror w fd errnum shortmsg longmsg) \<Longrightarrow> \<exists>bytes. e = Write fd bytes"
  by (auto simp: clienterror_def split: if_splits)

lemma cleanup_events: "e \<in> set (cleanup fd fd2) \<Longrightarrow> \<exists>d. e = Close d"
  by (auto simp: cleanup_def split: if_splits)

lemma read_requestline_non_get:
  assumes "rio_readlineb rp = (line, rp')" and "line \<noteq> []"
    and "parser_parse_line P pars line = (REQUEST, pars')"
    and "sscanf_request line = Some (meth, uri, v)"
    and "v = CHR ''0'' \<or> v = CHR ''1''" and "meth \<noteq> ''GET''"
  shows "read_requestline P w connfd rp pars =
           (- 1, line, pars', rp',
            clienterror w connfd ''501'' ''Not Implemented'' ''Server couldn't find this file'')"
  using assms by (auto simp: read_requestline_def)

lemma read_requestline_result:
  assumes "read_requestline P w connfd rp pars = (n, fBuf, pars', rp', evs)"
  shows "(\<forall>e\<in>set evs. \<exists>bytes. e = Write connfd bytes) \<and>
         (0 < n \<longrightarrow> evs = [] \<and>
            (\<exists>line rest uri v. rp = line # rest \<and> sscanf_request line = Some (''GET'', uri, v)))"
proof (cases rp)
  case Nil
  with assms show ?thesis by (auto simp: read_requestline_def rio_readlineb_def)
next
  case (Cons line rest)
  obtain mPs p1 where pl: "parser_parse_line P pars line = (mPs, p1)"
    by (cases "parser_parse_line P pars line")
  show ?thesis
  proof (cases "sscanf_request line")
    case None
    with assms Cons pl show ?thesis
      by (auto simp: read_requestline_def rio_readlineb_def split: if_splits)
  next
    case (Some r)
    obtain meth uri v where r: "r = (meth, uri, v)" by (cases r)
    from assms Cons pl Some r show ?thesis
      by (auto simp: read_requestline_def rio_readlineb_def split: if_splits option.splits
          dest: clienterror_events)
  qed
qed

lemma read_request_result:
  assumes "read_request P w connfd rp pars = Inr (err, fBuf, pars', evs)"
  shows "(\<forall>e\<in>set evs. \<exists>bytes. e = Write connfd bytes) \<and>
         (\<not> err \<longrightarrow>
            (\<exists>line rest uri v. rp = line # rest \<and> sscanf_request line = Some (''GET'', uri, v)))"
proof -
  obtain n b p1 rp1 evs1 where rl: "read_requestline P w connfd rp pars = (n, b, p1, rp1, evs1)"
    by (cases "read_requestline P w connfd rp pars") auto
  from assms rl have evs: "evs = evs1" and n: "\<not> err \<Longrightarrow> 0 < n"
    by (auto simp: read_request_def split: if_splits sum.splits)
  from read_requestline_result [OF rl] evs n show ?thesis by auto
qed

lemma threadRoutine_rejected:
  assumes "read_request P w connfd (client_input w) (parser_new P) = Inr (True, buffer, pars, evs)"
  shows "threadRoutine P w connfd c =
           Inr (evs @ clienterror w connfd ''400'' ''Bad Request'' ''Received a malformed request'' @
                cleanup connfd (- 1), c)"
  using assms by (simp add: threadRoutine_def)

lemma threadRoutine_non_get:
  assumes "rio_readlineb (client_input w) = (line, rest)" and "line \<noteq> []"
    and "parser_parse_line P (parser_new P) line = (REQUEST, pars')"
    and "sscanf_request line = Some (meth, uri, v)"
    and "v = CHR ''0'' \<or> v = CHR ''1''" and "meth \<noteq> ''GET''"
  shows "threadRoutine P w connfd c =
           Inr (clienterror w connfd ''501'' ''Not Implemented'' ''Server couldn't find this file'' @
                clienterror w connfd ''400'' ''Bad Request'' ''Received a malformed request'' @
                cleanup connfd (- 1), c)"
proof -
  have "read_request P w connfd (client_input w) (parser_new P) =
          Inr (True, line, pars',
               clienterror w connfd ''501'' ''Not Implemented'' ''Server couldn't find this file'')"
    by (simp add: read_request_def read_requestline_non_get [OF assms])
  from threadRoutine_rejected [OF this] show ?thesis .
qed

lemma error_body_400_length:
  "length (error_body ''400'' ''Bad Request'' ''Received a malformed request'') = 172"
  by code_simp

lemma error_headers_400:
  "error_headers ''400'' ''Bad Request'' 172 =
     ''HTTP/1.0 400 Bad Request'' @ CRLF @ ''Content-Type: text/html'' @ CRLF @
     ''Content-Length: 172'' @ CRLF @ CRLF"
  by code_simp

lemma error_headers_400_length: "length (error_headers ''400'' ''Bad Request'' 172) = 74"
  by code_simp

lemma error_body_501_length:
  "length (error_body ''501'' ''Not Implemented'' ''Server couldn't find this file'') = 178"
  by code_simp

lemma error_headers_501:
  "error_headers ''501'' ''Not Implemented'' 178 =
     ''HTTP/1.0 501 Not Implemented'' @ CRLF @ ''Content-Type: text/html'' @ CRLF @
     ''Content-Length: 178'' @ CRLF @ CRLF"
  by code_simp

lemma error_headers_501_length: "length (error_headers ''501'' ''Not Implemented'' 178) = 78"
  by code_simp

lemma clienterror_400:
  assumes "172 < MAXBUF w" and "74 < MAXLINE w"
  shows "clienterror w connfd ''400'' ''Bad Request'' ''Received a malformed request'' =
           Write connfd (''HTTP/1.0 400 Bad Request'' @ CRLF @ ''Content-Type: text/html'' @ CRLF @
                         ''Content-Length: 172'' @ CRLF @ CRLF) #
           (if client_ok w
            then [Write connfd (error_body ''400'' ''Bad Request'' ''Received a malformed request'')]
            else [])"
  using assms
  by (simp add: clienterror_def error_body_400_length error_headers_400_length)
     (simp add: error_headers_400)

lemma clienterror_501:
  assumes "178 < MAXBUF w" and "78 < MAXLINE w"
  shows "clienterror w connfd ''501'' ''Not Implemented'' ''Server couldn't find this file'' =
           Write connfd (''HTTP/1.0 501 Not Implemented'' @ CRLF @ ''Content-Type: text/html'' @ CRLF @
                         ''Content-Length: 178'' @ CRLF @ CRLF) #
           (if client_ok w
            then [Write connfd (error_body ''501'' ''Not Implemented'' ''Server couldn't find this file'')]
            else [])"
  using assms
  by (simp add: clienterror_def error_body_501_length error_headers_501_length)
     (simp add: error_headers_501)

lemma threadRoutine_malformed:
  assumes "rio_readlineb (client_input w) = (line, rest)"
    and "line = [] \<or> fst (parser_parse_line P (parser_new P) line) \<noteq> REQUEST \<or>
         sscanf_request line = None \<or>
         (\<exists>m u v. sscanf_request line = Some (m, u, v) \<and> v \<noteq> CHR ''0'' \<and> v \<noteq> CHR ''1'')"
  shows "threadRoutine P w connfd c =
           Inr (clienterror w connfd ''400'' ''Bad Request'' ''Received a malformed request'' @
                cleanup connfd (- 1), c)"
proof -
  obtain mPs p1 where pl: "parser_parse_line P (parser_new P) line = (mPs, p1)"
    by (cases "parser_parse_line P (parser_new P) line")
  have "\<exists>p. read_requestline P w connfd (client_input w) (parser_new P) = (- 1, line, p, rest, [])"
    using assms pl by (auto simp: read_requestline_def)
  then obtain p where "read_requestline P w connfd (client_input w) (parser_new P) =
      (- 1, line, p, rest, [])" ..
  then have "read_request P w connfd (client_input w) (parser_new P) = Inr (True, line, p, [])"
    by (simp add: read_request_def)
  from threadRoutine_rejected [OF this] show ?thesis by simp
qed

lemma threadRoutine_connect_needs_get:
  assumes "threadRoutine P w connfd c = Inr (tr, c')" and "Connect h q \<in> set tr"
  shows "\<exists>line rest uri v. client_input w = line # rest \<and>
           sscanf_request line = Some (''GET'', uri, v)"
proof -
  from assms(1) obtain err buffer mParser evs where
    rr: "read_request P w connfd (client_input w) (parser_new P) = Inr (err, buffer, mParser, evs)"
    by (auto simp: threadRoutine_def split: sum.splits)
  note res = read_request_result [OF rr]
  show ?thesis
  proof (cases err)
    case False
    with res show ?thesis by blast
  next
    case True
    with rr have "threadRoutine P w connfd c =
           Inr (evs @ clienterror w connfd ''400'' ''Bad Request'' ''Received a malformed request'' @
                cleanup connfd (- 1), c)"
      by (simp add: threadRoutine_rejected)
    with assms have "Connect h q \<in> set evs \<or>
        Connect h q \<in> set (clienterror w connfd ''400'' ''Bad Request'' ''Received a malformed request'') \<or>
        Connect h q \<in> set (cleanup connfd (- 1))"
      by auto
    with res show ?thesis
      by (auto dest: clienterror_events cleanup_events)
  qed
qed


text \<open>
  C9. Whenever \<open>read_request\<close> reports a rejection, \<open>threadRoutine\<close> writes the 400
  response after whatever \<open>read_request\<close> wrote, and then closes the connection. For a
  request line that passes the format checks with a method other than GET, what
  \<open>read_request\<close> wrote is the 501 response, so the client is sent 501 and then 400.
\<close>

theorem rejected_request_gets_400:
  "(read_request P w connfd (client_input w) (parser_new P) = Inr (True, buffer, pars, evs) \<longrightarrow>
      threadRoutine P w connfd c =
        Inr (evs @ clienterror w connfd ''400'' ''Bad Request'' ''Received a malformed request'' @
             cleanup connfd (- 1), c)) \<and>
   (rio_readlineb (client_input w) = (line, rest) \<and> line \<noteq> [] \<and>
    parser_parse_line P (parser_new P) line = (REQUEST, pars') \<and>
    sscanf_request line = Some (meth, uri, v) \<and> (v = CHR ''0'' \<or> v = CHR ''1'') \<and>
    meth \<noteq> ''GET'' \<longrightarrow>
      threadRoutine P w connfd c =
        Inr (clienterror w connfd ''501'' ''Not Implemented'' ''Server couldn't find this file'' @
             clienterror w connfd ''400'' ''Bad Request'' ''Received a malformed request'' @
             cleanup connfd (- 1), c)) \<and>
   (172 < MAXBUF w \<and> 74 < MAXLINE w \<longrightarrow>
      clienterror w connfd ''400'' ''Bad Request'' ''Received a malformed request'' =
        Write connfd (''HTTP/1.0 400 Bad Request'' @ CRLF @ ''Content-Type: text/html'' @ CRLF @
                      ''Content-Length: 172'' @ CRLF @ CRLF) #
        (if client_ok w
         then [Write connfd (error_body ''400'' ''Bad Request'' ''Received a malformed request'')]
         else []))"
  using threadRoutine_rejected [of P w connfd buffer pars evs c]
    threadRoutine_non_get [of w line rest P pars' meth uri v connfd c]
    clienterror_400 [of w connfd]
  by blast

theorem rejected_request_gets_400_witness:
  "threadRoutine example_parser (example_world [''POST /x HTTP/1.0'' @ CRLF, CRLF] []) 4
     init_web_cache =
   Inr ([Write 4 (error_headers ''501'' ''Not Implemented'' 178),
         Write 4 (error_body ''501'' ''Not Implemented'' ''Server couldn't find this file''),
         Write 4 (''HTTP/1.0 400 Bad Request'' @ CRLF @ ''Content-Type: text/html'' @ CRLF @
                  ''Content-Length: 172'' @ CRLF @ CRLF),
         Write 4 (error_body ''400'' ''Bad Request'' ''Received a malformed request''),
         Close 4], init_web_cache)"
proof -
  let ?w = "example_world [''POST /x HTTP/1.0'' @ CRLF, CRLF] []"
  have h: "rio_readlineb (client_input ?w) = (''POST /x HTTP/1.0'' @ CRLF, [CRLF]) \<and>
      ''POST /x HTTP/1.0'' @ CRLF \<noteq> [] \<and>
      parser_parse_line example_parser (parser_new example_parser) (''POST /x HTTP/1.0'' @ CRLF)
        = (REQUEST, []) \<and>
      sscanf_request (''POST /x HTTP/1.0'' @ CRLF) = Some (''POST'', ''/x'', CHR ''0'') \<and>
      (CHR ''0'' = CHR ''0'' \<or> CHR ''0'' = CHR ''1'') \<and> ''POST'' \<noteq> ''GET''"
    by (simp add: pipeline_eval)
  have l: "172 < MAXBUF ?w \<and> 74 < MAXLINE ?w" by (simp add: example_world_def)
  have e: "clienterror ?w 4 ''501'' ''Not Implemented'' ''Server couldn't find this file'' =
      [Write 4 (error_headers ''501'' ''Not Implemented'' 178),
       Write 4 (error_body ''501'' ''Not Implemented'' ''Server couldn't find this file'')]"
    by (simp add: clienterror_def example_world_def error_body_501_length error_headers_501_length)
  have ok: "client_ok ?w" by (simp add: example_world_def)
  from rejected_request_gets_400 [where w = ?w and P = example_parser and connfd = 4
      and c = init_web_cache] h l
  have A: "threadRoutine example_parser ?w 4 init_web_cache =
        Inr (clienterror ?w 4 ''501'' ''Not Implemented'' ''Server couldn't find this file'' @
             clienterror ?w 4 ''400'' ''Bad Request'' ''Received a malformed request'' @
             cleanup 4 (- 1), init_web_cache)"
    and B: "clienterror ?w 4 ''400'' ''Bad Request'' ''Received a malformed request'' =
        Write 4 (''HTTP/1.0 400 Bad Request'' @ CRLF @ ''Content-Type: text/html'' @ CRLF @
                      ''Content-Length: 172'' @ CRLF @ CRLF) #
        (if client_ok ?w
         then [Write 4 (error_body ''400'' ''Bad Request'' ''Received a malformed request'')]
         else [])"
    by blast+
  show ?thesis unfolding A B e using ok by (simp add: cleanup_def)
qed

text \<open>
  A request line that is read, taken by the parser for a request line and matched as
  \<open>method uri HTTP/1.0\<close> or \<open>HTTP/1.1\<close>, with a method other than GET, is answered
  first with 501 Not Implemented, and nothing the proxy does afterwards opens a
  connection. More generally a run that opens a connection to an origin began with a
  request line whose method is GET. A request whose first line fails one of the checks
  that come before the method (it cannot be read, the parser does not take it for a
  request line, it does not match, or its version digit is neither 0 nor 1) is answered
  with 400 Bad Request alone.
\<close>

theorem non_get_request_gets_501:
  "(rio_readlineb (client_input w) = (line, rest) \<and> line \<noteq> [] \<and>
    parser_parse_line P (parser_new P) line = (REQUEST, pars') \<and>
    sscanf_request line = Some (meth, uri, v) \<and> (v = CHR ''0'' \<or> v = CHR ''1'') \<and>
    meth \<noteq> ''GET'' \<longrightarrow>
      (\<exists>after. threadRoutine P w connfd c =
          Inr (clienterror w connfd ''501'' ''Not Implemented'' ''Server couldn't find this file'' @
               after, c) \<and>
        (\<forall>h q. Connect h q \<notin> set after))) \<and>
   (178 < MAXBUF w \<and> 78 < MAXLINE w \<longrightarrow>
      clienterror w connfd ''501'' ''Not Implemented'' ''Server couldn't find this file'' =
        Write connfd (''HTTP/1.0 501 Not Implemented'' @ CRLF @ ''Content-Type: text/html'' @ CRLF @
                      ''Content-Length: 178'' @ CRLF @ CRLF) #
        (if client_ok w
         then [Write connfd (error_body ''501'' ''Not Implemented'' ''Server couldn't find this file'')]
         else [])) \<and>
   (threadRoutine P w connfd c = Inr (tr, c') \<and> Connect h q \<in> set tr \<longrightarrow>
      (\<exists>line rest uri v. client_input w = line # rest \<and>
         sscanf_request line = Some (''GET'', uri, v))) \<and>
   (rio_readlineb (client_input w) = (line, rest) \<and>
    (line = [] \<or> fst (parser_parse_line P (parser_new P) line) \<noteq> REQUEST \<or>
     sscanf_request line = None \<or>
     (\<exists>m u v. sscanf_request line = Some (m, u, v) \<and> v \<noteq> CHR ''0'' \<and> v \<noteq> CHR ''1'')) \<longrightarrow>
      threadRoutine P w connfd c =
        Inr (clienterror w connfd ''400'' ''Bad Request'' ''Received a malformed request'' @
             cleanup connfd (- 1), c))"
proof -
  have 1: "\<exists>after. threadRoutine P w connfd c =
          Inr (clienterror w connfd ''501'' ''Not Implemented'' ''Server couldn't find this file'' @
               after, c) \<and>
        (\<forall>h q. Connect h q \<notin> set after)"
    if "rio_readlineb (client_input w) = (line, rest) \<and> line \<noteq> [] \<and>
    parser_parse_line P (parser_new P) line = (REQUEST, pars') \<and>
    sscanf_request line = Some (meth, uri, v) \<and> (v = CHR ''0'' \<or> v = CHR ''1'') \<and>
    meth \<noteq> ''GET''"
  proof -
    let ?after = "clienterror w connfd ''400'' ''Bad Request'' ''Received a malformed request'' @
             cleanup connfd (- 1)"
    from that have "threadRoutine P w connfd c =
        Inr (clienterror w connfd ''501'' ''Not Implemented'' ''Server couldn't find this file'' @
             ?after, c)"
      by (simp add: threadRoutine_non_get)
    moreover have "\<forall>h q. Connect h q \<notin> set ?after"
      by (auto dest: clienterror_events cleanup_events)
    ultimately show ?thesis by blast
  qed
  from 1 clienterror_501 [of w connfd] threadRoutine_connect_needs_get [of P w connfd c tr c' h q]
    threadRoutine_malformed [of w line rest P connfd c]
  show ?thesis by blast
qed

theorem non_get_request_gets_501_witness:
  "(\<exists>after. threadRoutine example_parser (example_world [''POST /x HTTP/1.0'' @ CRLF, CRLF] []) 4
       init_web_cache =
      Inr (Write 4 (''HTTP/1.0 501 Not Implemented'' @ CRLF @ ''Content-Type: text/html'' @ CRLF @
                    ''Content-Length: 178'' @ CRLF @ CRLF) #
           Write 4 (error_body ''501'' ''Not Implemented'' ''Server couldn't find this file'') #
           after, init_web_cache) \<and>
      (\<forall>h q. Connect h q \<notin> set after))"
proof -
  let ?w = "example_world [''POST /x HTTP/1.0'' @ CRLF, CRLF] []"
  have h: "rio_readlineb (client_input ?w) = (''POST /x HTTP/1.0'' @ CRLF, [CRLF]) \<and>
      ''POST /x HTTP/1.0'' @ CRLF \<noteq> [] \<and>
      parser_parse_line example_parser (parser_new example_parser) (''POST /x HTTP/1.0'' @ CRLF)
        = (REQUEST, []) \<and>
      sscanf_request (''POST /x HTTP/1.0'' @ CRLF) = Some (''POST'', ''/x'', CHR ''0'') \<and>
      (CHR ''0'' = CHR ''0'' \<or> CHR ''0'' = CHR ''1'') \<and> ''POST'' \<noteq> ''GET''"
    by (simp add: pipeline_eval)
  have l: "178 < MAXBUF ?w \<and> 78 < MAXLINE ?w" and ok: "client_ok ?w"
    by (simp_all add: example_world_def)
  from non_get_request_gets_501 [where w = ?w and P = example_parser and connfd = 4
      and c = init_web_cache] h l
  have A: "\<exists>after. threadRoutine example_parser ?w 4 init_web_cache =
          Inr (clienterror ?w 4 ''501'' ''Not Implemented'' ''Server couldn't find this file'' @
               after, init_web_cache) \<and>
        (\<forall>h q. Connect h q \<notin> set after)"
    and B: "clienterror ?w 4 ''501'' ''Not Implemented'' ''Server couldn't find this file'' =
        Write 4 (''HTTP/1.0 501 Not Implemented'' @ CRLF @ ''Content-Type: text/html'' @ CRLF @
                      ''Content-Length: 178'' @ CRLF @ CRLF) #
        (if client_ok ?w
         then [Write 4 (error_body ''501'' ''Not Implemented'' ''Server couldn't find this file'')]
         else [])"
    by blast+
  from A show ?thesis unfolding B using ok by simp
qed

text \<open>
  C7. \<open>read_requestline\<close> answers a request with a method other than GET with 501 Not
  Implemented and returns \<open>- 1\<close>, the value it returns for a malformed request line too;
  \<open>threadRoutine\<close> then writes 400 Bad Request on the same connection. For
  \<open>POST /x HTTP/1.0\<close> the client is sent the 501 response followed by a 400 response;
  no connection to an origin is opened.
\<close>

theorem non_get_gets_501_then_400:
  "threadRoutine example_parser (example_world [''POST /x HTTP/1.0'' @ CRLF, CRLF] []) 4
     init_web_cache =
   Inr ([Write 4 (''HTTP/1.0 501 Not Implemented'' @ CRLF @ ''Content-Type: text/html'' @ CRLF @
                  ''Content-Length: 178'' @ CRLF @ CRLF),
         Write 4 (error_body ''501'' ''Not Implemented'' ''Server couldn't find this file''),
         Write 4 (''HTTP/1.0 400 Bad Request'' @ CRLF @ ''Content-Type: text/html'' @ CRLF @
                  ''Content-Length: 172'' @ CRLF @ CRLF),
         Write 4 (error_body ''400'' ''Bad Request'' ''Received a malformed request''),
         Close 4], init_web_cache)"
  by (simp add: pipeline_eval dec.simps)

text \<open>
  C6. The write to the origin sends the whole array \<open>buffer\<close>, \<open>MAXBUF\<close> bytes: for the
  request \<open>GET http://h:80/x\<close> the 161 bytes of the rewritten request, the terminator
  and 8030 bytes of whatever lay behind it. In general the bytes sent are as many as the
  array has, whatever the length of the request in it.
\<close>

theorem origin_write_whole_buffer:
  "threadRoutine example_parser (example_world example_get [''hello'']) 4 init_web_cache =
   Inr ([Connect ''h'' ''80'',
         Write 5 (example_request @ CHR 0x00 # replicate 8030 (CHR 0x00)),
         Write 4 ''hello'',
         AddToCache ''http://h:80/x'' (''hello'' @ replicate 102395 (CHR 0x00)) 5,
         Close 5, Close 4],
        \<lparr>start = [\<lparr>urlKey = ''http://h:80/x'', object = ''hello'', objSize = 5, tStamp = 1,
                   referenceCnt = 1\<rparr>], size_c = 5, LRU = 1\<rparr>) \<and>
   length example_request = 161 \<and>
   length (example_request @ CHR 0x00 # replicate 8030 (CHR 0x00)) = 8192 \<and>
   length (buffer_image w buffer) = min (MAXBUF w) (Suc (length buffer + length (stale w)))"
  by (simp add: pipeline_eval example_get_def example_request_def)

text \<open>
  C4. \<open>threadRoutine\<close> hands \<open>cacheBuf\<close> to the cache whenever \<open>is_cacheable\<close> is
  still set when the loop ends, also when the loop ended because a read failed. When the
  first read fills the array with 102400 bytes and the second stores \<open>zz\<close> and then
  fails, the cache is given, and stores, \<open>zz\<close> followed by the last 102398 bytes of
  the first block; the next request for the URL is served those bytes.
\<close>

theorem failed_read_overwrites_cached_body:
  "threadRoutine example_parser
     ((example_world example_get [replicate 102400 (CHR ''a'')])\<lparr>origin_partial := ''zz''\<rparr>) 4
     init_web_cache =
   Inr ([Connect ''h'' ''80'',
         Write 5 (example_request @ CHR 0x00 # replicate 8030 (CHR 0x00)),
         Write 4 (replicate 102400 (CHR ''a'')),
         AddToCache ''http://h:80/x'' (''zz'' @ replicate 102398 (CHR ''a'')) 102400,
         Close 5, Close 4],
        \<lparr>start = [\<lparr>urlKey = ''http://h:80/x'', object = ''zz'' @ replicate 102398 (CHR ''a''),
                   objSize = 102400, tStamp = 1, referenceCnt = 1\<rparr>],
         size_c = 102400, LRU = 1\<rparr>) \<and>
   threadRoutine example_parser (example_world example_get []) 4
        \<lparr>start = [\<lparr>urlKey = ''http://h:80/x'', object = ''zz'' @ replicate 102398 (CHR ''a''),
                   objSize = 102400, tStamp = 1, referenceCnt = 1\<rparr>],
         size_c = 102400, LRU = 1\<rparr> =
   Inr ([Write 4 (''zz'' @ replicate 102398 (CHR ''a'')), Close 4],
        \<lparr>start = [\<lparr>urlKey = ''http://h:80/x'', object = ''zz'' @ replicate 102398 (CHR ''a''),
                   objSize = 102400, tStamp = 2, referenceCnt = 1\<rparr>],
         size_c = 102400, LRU = 2\<rparr>)"
  by (simp add: pipeline_eval example_get_def example_request_def)

text \<open>
  C5. \<open>is_cacheable\<close> starts true and is cleared only when the total passes
  \<open>MAX_OBJECT_SIZE\<close>. When the origin closes without sending a byte, \<open>add_to_cache\<close> is
  called with size 0, against its precondition, and an entry of size 0 is inserted.
\<close>

theorem empty_response_is_admitted:
  "threadRoutine example_parser (example_world example_get []) 4 init_web_cache =
   Inr ([Connect ''h'' ''80'',
         Write 5 (example_request @ CHR 0x00 # replicate 8030 (CHR 0x00)),
         AddToCache ''http://h:80/x'' (replicate 102400 (CHR 0x00)) 0,
         Close 5, Close 4],
        \<lparr>start = [\<lparr>urlKey = ''http://h:80/x'', object = [], objSize = 0, tStamp = 1,
                   referenceCnt = 1\<rparr>], size_c = 0, LRU = 1\<rparr>)"
  by (simp add: pipeline_eval example_get_def example_request_def)

subsection \<open>The relay and the hand-over to the cache\<close>

lemma received_simps [simp]:
  "received [] = []"
  "received (b # bs) = (if b = [] then [] else b # received bs)"
  by (simp_all add: received_def)

lemma received_nonempty: "b \<in> set (received blocks) \<Longrightarrow> b \<noteq> []"
  by (auto simp: received_def dest: set_takeWhileD)

lemma relay_result:
  "relay connfd partial blocks buf t0 cch = Inr (evs, buf', t, cch') \<Longrightarrow>
   evs = map (Write connfd) (received blocks) \<and>
   t = t0 + int (length (concat (received blocks))) \<and>
   (cch' \<longleftrightarrow> cch \<and> (received blocks = [] \<or> t \<le> MAX_OBJECT_SIZE))"
proof (induction blocks arbitrary: buf t0 cch evs)
  case Nil
  then show ?case by simp
next
  case (Cons b bs)
  show ?case
  proof (cases "b = []")
    case True
    with Cons.prems show ?thesis by simp
  next
    case False
    let ?t1 = "t0 + int (length b)"
    from Cons.prems False have t1: "c_add t0 (int (length b)) = Inr ?t1"
      by (auto split: sum.splits dest!: c_add_Inr)
    with Cons.prems False obtain evs1 where
      rec: "relay connfd partial bs (b @ drop (length b) buf) ?t1
              (if ?t1 > MAX_OBJECT_SIZE then False else cch) = Inr (evs1, buf', t, cch')"
      and evs: "evs = Write connfd b # evs1"
      by (auto split: sum.splits)
    from Cons.IH [OF rec] have
      e1: "evs1 = map (Write connfd) (received bs)"
      and tt: "t = ?t1 + int (length (concat (received bs)))"
      and cc: "cch' \<longleftrightarrow> (if ?t1 > MAX_OBJECT_SIZE then False else cch) \<and>
                 (received bs = [] \<or> t \<le> MAX_OBJECT_SIZE)"
      by simp_all
    from tt have ge: "?t1 \<le> t" by simp
    have "cch' \<longleftrightarrow> cch \<and> t \<le> MAX_OBJECT_SIZE"
    proof (cases "received bs = []")
      case True
      with tt have "t = ?t1" by simp
      with cc show ?thesis by auto
    next
      case False
      with cc ge show ?thesis by auto
    qed
    with evs e1 tt False show ?thesis by simp
  qed
qed

lemma relay_single:
  "received blocks = [body] \<Longrightarrow>
   relay connfd partial blocks buf t0 cch = Inr (evs, buf', t, cch') \<Longrightarrow>
   buf' = partial @ drop (length partial) (body @ drop (length body) buf)"
proof (cases blocks)
  case Nil
  assume "received blocks = [body]"
  with Nil show ?thesis by simp
next
  case (Cons b bs)
  assume r: "received blocks = [body]"
    and run: "relay connfd partial blocks buf t0 cch = Inr (evs, buf', t, cch')"
  from r Cons have b: "b = body" "body \<noteq> []" and rest: "received bs = []"
    by (auto split: if_splits)
  from rest have stop: "\<And>buf t c. relay connfd partial bs buf t c =
      Inr ([], partial @ drop (length partial) buf, t, c)"
    by (cases bs) (auto split: if_splits)
  from run Cons b stop show ?thesis by (auto split: sum.splits)
qed

text \<open>
  When every block but the last fills the array, a total of at most \<open>MAX_OBJECT_SIZE\<close>
  means that a single block was read, or none.
\<close>

lemma received_at_most_one:
  assumes full: "\<forall>block\<in>set (butlast (received blocks)). int (length block) = MAX_OBJECT_SIZE"
    and le: "int (length (concat (received blocks))) \<le> MAX_OBJECT_SIZE"
  shows "received blocks = [] \<or> (\<exists>body. received blocks = [body])"
proof (cases "received blocks")
  case Nil
  then show ?thesis by simp
next
  case (Cons b bs)
  have "bs = []"
  proof (rule ccontr)
    assume "bs \<noteq> []"
    then obtain b2 bs2 where bs: "bs = b2 # bs2" by (cases bs) auto
    with Cons full have "int (length b) = MAX_OBJECT_SIZE" by simp
    moreover from Cons bs have "b2 \<in> set (received blocks)" by simp
    then have "b2 \<noteq> []" by (rule received_nonempty)
    then have "0 < length b2" by simp
    moreover from Cons bs have
      "length (concat (received blocks)) = length b + length b2 + length (concat bs2)"
      by simp
    ultimately show False using le by linarith
  qed
  with Cons show ?thesis by simp
qed

lemma whole_body_handed_over:
  assumes rel: "relay connfd [] blocks buf 0 True = Inr (evs, buf', t, cch)"
    and full: "\<forall>block\<in>set (butlast (received blocks)). int (length block) = MAX_OBJECT_SIZE"
    and le: "int (length (concat (received blocks))) \<le> MAX_OBJECT_SIZE"
  shows "take (length (concat (received blocks))) buf' = concat (received blocks)"
proof -
  from received_at_most_one [OF full le] show ?thesis
  proof
    assume "received blocks = []"
    then show ?thesis by simp
  next
    assume "\<exists>body. received blocks = [body]"
    then obtain body where b: "received blocks = [body]" ..
    from relay_single [OF b rel] have "buf' = body @ drop (length body) buf" by simp
    with b show ?thesis by simp
  qed
qed

text \<open>
  What a fetch that reaches the origin does, in order: the connect, the write of the whole
  array \<open>buffer\<close>, one write to the client per block, the call of \<open>add_to_cache\<close>
  exactly when the total is at most \<open>MAX_OBJECT_SIZE\<close> (a total of zero included), and
  the two closes. When the body came as a single block, the array handed to the cache
  is that block over the old contents of the array, and over it what the call that ended
  the loop left. When the input ended without a failed read and every block but the last
  filled the array, as the blocks of \<open>rio_readnb\<close> do, the bytes the cache is given are
  the bytes received.
\<close>

theorem admission_rule:
  assumes "fetch_from_origin w connfd buffer mHost mPort mURI c = Inr (tr, c')"
    and "0 \<le> open_clientfd w mHost mPort" and "origin_ok w"
  shows "\<exists>cacheBuf.
           tr = Connect mHost mPort #
                Write (open_clientfd w mHost mPort) (buffer_image w buffer) #
                map (Write connfd) (received (origin_input w)) @
                (if int (length (concat (received (origin_input w)))) \<le> MAX_OBJECT_SIZE
                 then [AddToCache mURI cacheBuf (int (length (concat (received (origin_input w)))))]
                 else []) @
                cleanup connfd (open_clientfd w mHost mPort) \<and>
           (\<forall>body. received (origin_input w) = [body] \<longrightarrow>
                cacheBuf = origin_partial w @
                  drop (length (origin_partial w)) (body @ drop (length body) (cacheBuf0 w))) \<and>
           (origin_partial w = [] \<and>
            (\<forall>block\<in>set (butlast (received (origin_input w))).
                int (length block) = MAX_OBJECT_SIZE) \<and>
            int (length (concat (received (origin_input w)))) \<le> MAX_OBJECT_SIZE \<longrightarrow>
                take (length (concat (received (origin_input w)))) cacheBuf =
                  concat (received (origin_input w)))"
proof -
  from assms obtain evs cacheBuf t cch where
    rel: "relay connfd (origin_partial w) (origin_input w) (cacheBuf0 w) 0 True =
            Inr (evs, cacheBuf, t, cch)"
    by (auto simp: fetch_from_origin_def split: sum.splits)
  from relay_result [OF rel] have evs: "evs = map (Write connfd) (received (origin_input w))"
    and t: "t = int (length (concat (received (origin_input w))))"
    and cch: "cch \<longleftrightarrow> (received (origin_input w) = [] \<or> t \<le> MAX_OBJECT_SIZE)"
    by simp_all
  have "received (origin_input w) = [] \<Longrightarrow> t \<le> MAX_OBJECT_SIZE"
    using t by (simp add: MAX_OBJECT_SIZE_def)
  with cch have cch': "cch \<longleftrightarrow> t \<le> MAX_OBJECT_SIZE" by auto
  have single: "\<forall>body. received (origin_input w) = [body] \<longrightarrow>
                cacheBuf = origin_partial w @
                  drop (length (origin_partial w)) (body @ drop (length body) (cacheBuf0 w))"
    using relay_single [OF _ rel] by blast
  have whole: "origin_partial w = [] \<and>
            (\<forall>block\<in>set (butlast (received (origin_input w))).
                int (length block) = MAX_OBJECT_SIZE) \<and>
            int (length (concat (received (origin_input w)))) \<le> MAX_OBJECT_SIZE \<longrightarrow>
                take (length (concat (received (origin_input w)))) cacheBuf =
                  concat (received (origin_input w))"
    using whole_body_handed_over [of connfd "origin_input w" "cacheBuf0 w" evs cacheBuf t cch] rel
    by auto
  from assms rel evs t cch' have
     "tr = Connect mHost mPort #
                Write (open_clientfd w mHost mPort) (buffer_image w buffer) #
                map (Write connfd) (received (origin_input w)) @
                (if int (length (concat (received (origin_input w)))) \<le> MAX_OBJECT_SIZE
                 then [AddToCache mURI cacheBuf (int (length (concat (received (origin_input w)))))]
                 else []) @
                cleanup connfd (open_clientfd w mHost mPort)"
    by (auto simp: fetch_from_origin_def split: sum.splits if_splits)
  with single whole show ?thesis by blast
qed


theorem admission_rule_witness:
  "fetch_from_origin (example_world example_get [''hello'']) 4 example_request ''h'' ''80''
     ''http://h:80/x'' init_web_cache =
   Inr ([Connect ''h'' ''80'',
         Write 5 (example_request @ CHR 0x00 # replicate 8030 (CHR 0x00)),
         Write 4 ''hello'',
         AddToCache ''http://h:80/x'' (''hello'' @ replicate 102395 (CHR 0x00)) 5,
         Close 5, Close 4],
        \<lparr>start = [\<lparr>urlKey = ''http://h:80/x'', object = ''hello'', objSize = 5, tStamp = 0,
                   referenceCnt = 1\<rparr>], size_c = 5, LRU = 0\<rparr>) \<and>
   (\<exists>cacheBuf. AddToCache ''http://h:80/x'' cacheBuf 5 \<in>
        set [Connect ''h'' ''80'',
             Write 5 (example_request @ CHR 0x00 # replicate 8030 (CHR 0x00)),
             Write 4 ''hello'',
             AddToCache ''http://h:80/x'' (''hello'' @ replicate 102395 (CHR 0x00)) 5,
             Close 5, Close 4] \<and>
      cacheBuf = ''hello'' @ replicate 102395 (CHR 0x00) \<and>
      take 5 cacheBuf = ''hello'')"
proof -
  let ?w = "example_world example_get [''hello'']"
  let ?tr = "[Connect ''h'' ''80'',
         Write 5 (example_request @ CHR 0x00 # replicate 8030 (CHR 0x00)),
         Write 4 ''hello'',
         AddToCache ''http://h:80/x'' (''hello'' @ replicate 102395 (CHR 0x00)) 5,
         Close 5, Close 4]"
  have run: "fetch_from_origin ?w 4 example_request ''h'' ''80'' ''http://h:80/x'' init_web_cache =
     Inr (?tr, \<lparr>start = [\<lparr>urlKey = ''http://h:80/x'', object = ''hello'', objSize = 5, tStamp = 0,
                   referenceCnt = 1\<rparr>], size_c = 5, LRU = 0\<rparr>)"
    by (simp add: pipeline_eval example_get_def example_request_def)
  have fd: "0 \<le> open_clientfd ?w ''h'' ''80''" and ok: "origin_ok ?w"
    by (simp_all add: example_world_def)
  have rec: "received (origin_input ?w) = [''hello'']"
    by (simp add: example_world_def)
  have clean: "origin_partial ?w = [] \<and>
      (\<forall>block\<in>set (butlast (received (origin_input ?w))). int (length block) = MAX_OBJECT_SIZE) \<and>
      int (length (concat (received (origin_input ?w)))) \<le> MAX_OBJECT_SIZE"
    by (simp add: example_world_def MAX_OBJECT_SIZE_def)
  from admission_rule [OF run fd ok]
  obtain cacheBuf where single: "\<forall>body. received (origin_input ?w) = [body] \<longrightarrow>
      cacheBuf = origin_partial ?w @
        drop (length (origin_partial ?w)) (body @ drop (length body) (cacheBuf0 ?w))"
    and whole: "origin_partial ?w = [] \<and>
      (\<forall>block\<in>set (butlast (received (origin_input ?w))). int (length block) = MAX_OBJECT_SIZE) \<and>
      int (length (concat (received (origin_input ?w)))) \<le> MAX_OBJECT_SIZE \<longrightarrow>
        take (length (concat (received (origin_input ?w)))) cacheBuf =
          concat (received (origin_input ?w))"
    by blast
  from single rec have "cacheBuf = origin_partial ?w @
      drop (length (origin_partial ?w)) (''hello'' @ drop (length ''hello'') (cacheBuf0 ?w))"
    by blast
  then have 1: "cacheBuf = ''hello'' @ replicate 102395 (CHR 0x00)"
    by (simp add: example_world_def)
  from whole clean have "take (length (concat (received (origin_input ?w)))) cacheBuf =
      concat (received (origin_input ?w))"
    by blast
  with rec have 2: "take 5 cacheBuf = ''hello''" by (simp add: eval_nat_numeral)
  from run 1 2 show ?thesis by simp
qed

end
